theory Spec2Isabelle
  imports Main
begin

section \<open>The Docker Compose validator of DockerComposeValidator.tsx\<close>

text \<open>
  The function \<^verbatim>\<open>validate(doc: unknown): ValidationError[]\<close> walks an untyped
  JavaScript value, as \<^verbatim>\<open>YAML.parse\<close> returns it, and collects diagnostics. The
  embedding below has a datatype of such values, the handful of JavaScript primitives
  the validator applies to them (\<^verbatim>\<open>typeof\<close>, truthiness, property access,
  \<^verbatim>\<open>Object.keys\<close>, \<^verbatim>\<open>String\<close>, \<^verbatim>\<open>RegExp.test\<close>), and then the validator itself, check
  by check in the order of the source.
\<close>

subsection \<open>JavaScript values\<close>

text \<open>
  A number is observed by the validator only through \<^verbatim>\<open>typeof\<close>, its truthiness and
  \<^verbatim>\<open>String(n)\<close>. \<open>NInt i\<close> is an integer-valued number printed as a decimal numeral
  (minus zero is \<open>NInt 0\<close>: it prints as 0 and is falsy); \<open>NOther s\<close> is any other number
  (a fraction, a number printed with an exponent, NaN, an infinity), carried as the text
  \<^verbatim>\<open>String\<close> gives for it.
\<close>

datatype jsnum = NInt int | NOther string

text \<open>
  An object is the list of its own enumerable properties in the order \<^verbatim>\<open>Object.keys\<close>
  lists them; the keys of an object are pairwise distinct.
\<close>

datatype jsval =
    JUndefined
  | JNull
  | JBool bool
  | JNum jsnum
  | JStr string
  | JArr "jsval list"
  | JObj "(string \<times> jsval) list"

datatype jstype = TUndefined | TObject | TBoolean | TNumber | TString

fun js_typeof :: "jsval \<Rightarrow> jstype" where
  "js_typeof JUndefined = TUndefined"
| "js_typeof JNull = TObject"
| "js_typeof (JBool b) = TBoolean"
| "js_typeof (JNum n) = TNumber"
| "js_typeof (JStr s) = TString"
| "js_typeof (JArr xs) = TObject"
| "js_typeof (JObj kvs) = TObject"

fun isArray :: "jsval \<Rightarrow> bool" where
  "isArray (JArr xs) = True"
| "isArray v = False"

text \<open>Truthiness: \<^verbatim>\<open>undefined\<close>, \<^verbatim>\<open>null\<close>, \<^verbatim>\<open>false\<close>, 0, NaN and the empty string are falsy.\<close>

fun truthy :: "jsval \<Rightarrow> bool" where
  "truthy JUndefined = False"
| "truthy JNull = False"
| "truthy (JBool b) = b"
| "truthy (JNum (NInt i)) = (i \<noteq> 0)"
| "truthy (JNum (NOther s)) = (s \<noteq> ''NaN'')"
| "truthy (JStr s) = (s \<noteq> [])"
| "truthy (JArr xs) = True"
| "truthy (JObj kvs) = True"

subsection \<open>Decimal numerals\<close>

definition digit_char :: "nat \<Rightarrow> char" where
  "digit_char d = ''0123456789'' ! d"

function digits :: "nat \<Rightarrow> string" where
  "digits n = (if n < 10 then [digit_char n] else digits (n div 10) @ [digit_char (n mod 10)])"
  by pat_completeness auto
termination
  by (relation "measure (\<lambda>n. n)") auto

declare digits.simps [simp del]

definition int_to_string :: "int \<Rightarrow> string" where
  "int_to_string i = (if i < 0 then CHR ''-'' # digits (nat (- i)) else digits (nat i))"

fun num_to_string :: "jsnum \<Rightarrow> string" where
  "num_to_string (NInt i) = int_to_string i"
| "num_to_string (NOther s) = s"

subsection \<open>Own properties\<close>

text \<open>
  \<^verbatim>\<open>Object.entries\<close> and \<^verbatim>\<open>Object.keys\<close>, which the validator applies to values that are
  objects or arrays: the own properties of an array are its indices.
\<close>

fun object_entries :: "jsval \<Rightarrow> (string \<times> jsval) list" where
  "object_entries (JObj kvs) = kvs"
| "object_entries (JArr xs) = zip (map digits [0..<length xs]) xs"
| "object_entries v = []"

definition object_keys :: "jsval \<Rightarrow> string list" where
  "object_keys v = map fst (object_entries v)"

text \<open>
  Property access \<^verbatim>\<open>v.k\<close> and \<^verbatim>\<open>v[k]\<close>. The validator reads \<^verbatim>\<open>version\<close>, \<^verbatim>\<open>services\<close>, \<^verbatim>\<open>volumes\<close>,
  \<^verbatim>\<open>image\<close>, \<^verbatim>\<open>build\<close>, \<^verbatim>\<open>restart\<close>, \<^verbatim>\<open>ports\<close>, \<^verbatim>\<open>depends_on\<close>, \<^verbatim>\<open>environment\<close> and the names of
  services; no prototype defines the former, so a property that is not an own property
  reads as \<^verbatim>\<open>undefined\<close>. The source reads properties of values it has found to be
  non-null objects, and in \<^verbatim>\<open>hasCycle\<close> through \<^verbatim>\<open>?.\<close>, which gives \<^verbatim>\<open>undefined\<close> on
  \<^verbatim>\<open>null\<close> and \<^verbatim>\<open>undefined\<close>.
\<close>

definition get_prop :: "jsval \<Rightarrow> string \<Rightarrow> jsval" where
  "get_prop v k = (case map_of (object_entries v) k of None \<Rightarrow> JUndefined | Some x \<Rightarrow> x)"

subsection \<open>String conversion\<close>

text \<open>
  \<^verbatim>\<open>String(v)\<close>. On an array it joins the conversions of the elements with commas, an
  element \<^verbatim>\<open>null\<close> or \<^verbatim>\<open>undefined\<close> giving the empty string. On any other object it calls
  the object's \<^verbatim>\<open>toString\<close> if that is callable, then \<^verbatim>\<open>valueOf\<close>: a parsed mapping
  without a key \<^verbatim>\<open>toString\<close> inherits \<^verbatim>\<open>Object.prototype.toString\<close>; one with such a key
  has a value there that is not callable, \<^verbatim>\<open>valueOf\<close> gives no primitive either, and the
  conversion throws a \<^verbatim>\<open>TypeError\<close>, which is the result \<open>None\<close>.
\<close>

fun js_String :: "jsval \<Rightarrow> string option"
  and js_join :: "jsval list \<Rightarrow> string option" where
  "js_String JUndefined = Some ''undefined''"
| "js_String JNull = Some ''null''"
| "js_String (JBool b) = Some (if b then ''true'' else ''false'')"
| "js_String (JNum n) = Some (num_to_string n)"
| "js_String (JStr s) = Some s"
| "js_String (JArr xs) = js_join xs"
| "js_String (JObj kvs) =
     (if ''toString'' \<in> set (map fst kvs) then None else Some ''[object Object]'')"
| "js_join [] = Some []"
| "js_join (x # xs) =
     (case (if x = JUndefined \<or> x = JNull then Some [] else js_String x) of
        None \<Rightarrow> None
      | Some s \<Rightarrow>
          (if xs = [] then Some s
           else (case js_join xs of None \<Rightarrow> None | Some r \<Rightarrow> Some (s @ '','' @ r))))"

text \<open>\<^verbatim>\<open>xs.map(String)\<close>: the first conversion that throws ends the whole call.\<close>

fun map_String :: "jsval list \<Rightarrow> string list option" where
  "map_String [] = Some []"
| "map_String (x # xs) =
     (case js_String x of
        None \<Rightarrow> None
      | Some s \<Rightarrow> (case map_String xs of None \<Rightarrow> None | Some ss \<Rightarrow> Some (s # ss)))"

subsection \<open>Regular expressions\<close>

text \<open>
  The two port patterns are regular expressions anchored at both ends, without flags, so
  \<^verbatim>\<open>re.test(s)\<close> says whether the whole of \<open>s\<close> is in the language of the expression.
  Membership is computed by derivatives.
\<close>

datatype rx =
    RNone
  | REps
  | RCls "char list"
  | RSeq rx rx
  | RAlt rx rx
  | RStar rx

fun nullable :: "rx \<Rightarrow> bool" where
  "nullable RNone = False"
| "nullable REps = True"
| "nullable (RCls cs) = False"
| "nullable (RSeq r s) = (nullable r \<and> nullable s)"
| "nullable (RAlt r s) = (nullable r \<or> nullable s)"
| "nullable (RStar r) = True"

fun deriv :: "char \<Rightarrow> rx \<Rightarrow> rx" where
  "deriv c RNone = RNone"
| "deriv c REps = RNone"
| "deriv c (RCls cs) = (if c \<in> set cs then REps else RNone)"
| "deriv c (RSeq r s) =
     (if nullable r then RAlt (RSeq (deriv c r) s) (deriv c s) else RSeq (deriv c r) s)"
| "deriv c (RAlt r s) = RAlt (deriv c r) (deriv c s)"
| "deriv c (RStar r) = RSeq (deriv c r) (RStar r)"

fun rx_test :: "rx \<Rightarrow> string \<Rightarrow> bool" where
  "rx_test r [] = nullable r"
| "rx_test r (c # cs) = rx_test (deriv c r) cs"

definition RPlus :: "rx \<Rightarrow> rx" where
  "RPlus r = RSeq r (RStar r)"

definition ROpt :: "rx \<Rightarrow> rx" where
  "ROpt r = RAlt r REps"

text \<open>The classes \<^verbatim>\<open>\d\<close> and \<^verbatim>\<open>\w\<close>.\<close>

definition rx_digit :: rx where
  "rx_digit = RCls ''0123456789''"

definition rx_word :: rx where
  "rx_word = RCls ''abcdefghijklmnopqrstuvwxyzABCDEFGHIJKLMNOPQRSTUVWXYZ0123456789_''"

text \<open>\<^verbatim>\<open>/^\d+([:-]\d+)?(\/\w+)?$/\<close>\<close>

definition port_re_bare :: rx where
  "port_re_bare =
     RSeq (RPlus rx_digit)
       (RSeq (ROpt (RSeq (RCls '':-'') (RPlus rx_digit)))
          (ROpt (RSeq (RCls ''/'') (RPlus rx_word))))"

text \<open>\<^verbatim>\<open>/^\d+([:-]\d+)?:\d+([:-]\d+)?(\/\w+)?$/\<close>\<close>

definition port_re_mapped :: rx where
  "port_re_mapped =
     RSeq (RPlus rx_digit)
       (RSeq (ROpt (RSeq (RCls '':-'') (RPlus rx_digit)))
          (RSeq (RCls '':'')
             (RSeq (RPlus rx_digit)
                (RSeq (ROpt (RSeq (RCls '':-'') (RPlus rx_digit)))
                   (ROpt (RSeq (RCls ''/'') (RPlus rx_word)))))))"

subsection \<open>Diagnostics\<close>

datatype severity = SevError | SevWarning

record ValidationError =
  severity :: severity
  message :: string
  path :: "string option"

text \<open>A name between double quotes, as the message templates print it.\<close>

definition quoted :: "string \<Rightarrow> string" where
  "quoted s = CHR 0x22 # s @ [CHR 0x22]"

definition validRestartPolicies :: "string list" where
  "validRestartPolicies = [''no'', ''always'', ''on-failure'', ''unless-stopped'']"

definition validServiceKeys :: "string list" where
  "validServiceKeys =
    [''image'', ''build'', ''command'', ''entrypoint'', ''container_name'', ''depends_on'',
     ''environment'', ''env_file'', ''expose'', ''ports'', ''volumes'', ''networks'',
     ''restart'', ''deploy'', ''labels'', ''logging'', ''healthcheck'', ''configs'',
     ''secrets'', ''working_dir'', ''user'', ''hostname'', ''domainname'', ''dns'',
     ''dns_search'', ''extra_hosts'', ''links'', ''external_links'', ''stdin_open'',
     ''tty'', ''cap_add'', ''cap_drop'', ''devices'', ''privileged'', ''read_only'',
     ''security_opt'', ''tmpfs'', ''sysctls'', ''ulimits'', ''stop_signal'',
     ''stop_grace_period'', ''init'', ''platform'', ''profiles'', ''pull_policy'',
     ''mem_limit'', ''memswap_limit'', ''mem_reservation'', ''cpus'', ''cpu_shares'',
     ''cpu_quota'', ''cpu_period'', ''cpuset'', ''shm_size'', ''pid'', ''ipc'',
     ''extends'', ''scale'', ''runtime'', ''isolation'', ''network_mode'',
     ''group_add'', ''cgroup_parent'', ''credential_spec'', ''oom_score_adj'',
     ''storage_opt'', ''annotations'']"

definition validTopLevelKeys :: "string list" where
  "validTopLevelKeys =
    [''version'', ''services'', ''networks'', ''volumes'', ''configs'', ''secrets'', ''name'']"

text \<open>\<^verbatim>\<open>validRestartPolicies.join(', ')\<close>\<close>

fun join_with :: "string \<Rightarrow> string list \<Rightarrow> string" where
  "join_with sep [] = []"
| "join_with sep [s] = s"
| "join_with sep (s # t # ts) = s @ sep @ join_with sep (t # ts)"

definition root_shape_error :: ValidationError where
  "root_shape_error =
     \<lparr>severity = SevError, message = ''Document must be a YAML mapping (object).'', path = None\<rparr>"

definition unknown_top_level_key :: "string \<Rightarrow> ValidationError" where
  "unknown_top_level_key key =
     \<lparr>severity = SevWarning, message = ''Unknown top-level key '' @ quoted key @ ''.'',
      path = Some key\<rparr>"

definition version_obsolete :: ValidationError where
  "version_obsolete =
     \<lparr>severity = SevWarning,
      message = ''The '' @ quoted ''version'' @
        '' field is obsolete in Docker Compose v2+. It can be safely removed.'',
      path = Some ''version''\<rparr>"

definition missing_services :: ValidationError where
  "missing_services =
     \<lparr>severity = SevError, message = ''Missing required '' @ quoted ''services'' @ '' key.'',
      path = None\<rparr>"

definition services_shape_error :: ValidationError where
  "services_shape_error =
     \<lparr>severity = SevError,
      message = quoted ''services'' @ '' must be a mapping of service definitions.'',
      path = None\<rparr>"

definition service_not_mapping :: "string \<Rightarrow> string \<Rightarrow> ValidationError" where
  "service_not_mapping name svcPath =
     \<lparr>severity = SevError, message = ''Service '' @ quoted name @ '' must be a mapping.'',
      path = Some svcPath\<rparr>"

definition missing_image_or_build :: "string \<Rightarrow> string \<Rightarrow> ValidationError" where
  "missing_image_or_build name svcPath =
     \<lparr>severity = SevError,
      message = ''Service '' @ quoted name @ '' must have either '' @ quoted ''image'' @
        '' or '' @ quoted ''build'' @ ''.'',
      path = Some svcPath\<rparr>"

definition unknown_service_key :: "string \<Rightarrow> string \<Rightarrow> string \<Rightarrow> ValidationError" where
  "unknown_service_key name svcPath key =
     \<lparr>severity = SevWarning,
      message = ''Unknown key '' @ quoted key @ '' in service '' @ quoted name @ ''.'',
      path = Some (svcPath @ ''.'' @ key)\<rparr>"

definition invalid_restart :: "string \<Rightarrow> string \<Rightarrow> string \<Rightarrow> ValidationError" where
  "invalid_restart name svcPath restart =
     \<lparr>severity = SevError,
      message = ''Invalid restart policy '' @ quoted restart @ '' in '' @ quoted name @
        ''. Valid: '' @ join_with '', '' validRestartPolicies @ ''.'',
      path = Some (svcPath @ ''.restart'')\<rparr>"

definition unusual_port :: "string \<Rightarrow> string \<Rightarrow> string \<Rightarrow> ValidationError" where
  "unusual_port name svcPath pStr =
     \<lparr>severity = SevWarning,
      message = ''Unusual port format '' @ quoted pStr @ '' in '' @ quoted name @
        ''. Expected format: '' @ quoted ''host:container'' @ '' or '' @
        quoted ''container'' @ ''.'',
      path = Some (svcPath @ ''.ports'')\<rparr>"

definition undefined_dependency :: "string \<Rightarrow> string \<Rightarrow> string \<Rightarrow> ValidationError" where
  "undefined_dependency name svcPath dep =
     \<lparr>severity = SevError,
      message = ''Service '' @ quoted name @ '' depends on '' @ quoted dep @
        '', which is not defined.'',
      path = Some (svcPath @ ''.depends_on'')\<rparr>"

definition self_dependency :: "string \<Rightarrow> string \<Rightarrow> ValidationError" where
  "self_dependency name svcPath =
     \<lparr>severity = SevError, message = ''Service '' @ quoted name @ '' depends on itself.'',
      path = Some (svcPath @ ''.depends_on'')\<rparr>"

definition environment_shape :: "string \<Rightarrow> string \<Rightarrow> ValidationError" where
  "environment_shape name svcPath =
     \<lparr>severity = SevError,
      message = quoted ''environment'' @ '' in '' @ quoted name @
        '' must be a list or mapping.'',
      path = Some (svcPath @ ''.environment'')\<rparr>"

definition undefined_volume :: "string \<Rightarrow> string \<Rightarrow> string \<Rightarrow> ValidationError" where
  "undefined_volume name svcPath vol =
     \<lparr>severity = SevWarning,
      message = ''Volume '' @ quoted vol @ '' used in '' @ quoted name @
        '' is not defined in top-level '' @ quoted ''volumes'' @ ''.'',
      path = Some (svcPath @ ''.volumes'')\<rparr>"

definition circular_dependency :: "string \<Rightarrow> string \<Rightarrow> ValidationError" where
  "circular_dependency node dep =
     \<lparr>severity = SevError,
      message = ''Circular dependency detected involving '' @ quoted node @ '' and '' @
        quoted dep @ ''.'',
      path = None\<rparr>"

subsection \<open>The checks of \<^verbatim>\<open>validate\<close>\<close>

text \<open>
  Each check returns the diagnostics it pushes, in the order it pushes them; \<^verbatim>\<open>validate\<close>
  appends them to \<^verbatim>\<open>errors\<close>. A check in which a \<^verbatim>\<open>String\<close> conversion can throw returns
  an option, \<open>None\<close> for the exception, which leaves \<^verbatim>\<open>validate\<close> with no result.
\<close>

text \<open>Unknown top-level keys: the loop over \<^verbatim>\<open>Object.keys(root)\<close>.\<close>

fun check_top_level_keys :: "string list \<Rightarrow> ValidationError list" where
  "check_top_level_keys [] = []"
| "check_top_level_keys (key # keys) =
     (if key \<notin> set validTopLevelKeys then [unknown_top_level_key key] else []) @
     check_top_level_keys keys"

definition check_version :: "jsval \<Rightarrow> ValidationError list" where
  "check_version root =
     (if get_prop root ''version'' \<noteq> JUndefined then [version_obsolete] else [])"

definition check_image_or_build :: "string \<Rightarrow> string \<Rightarrow> jsval \<Rightarrow> ValidationError list" where
  "check_image_or_build name svcPath svc =
     (if \<not> truthy (get_prop svc ''image'') \<and> \<not> truthy (get_prop svc ''build'')
      then [missing_image_or_build name svcPath] else [])"

fun check_service_keys :: "string \<Rightarrow> string \<Rightarrow> string list \<Rightarrow> ValidationError list" where
  "check_service_keys name svcPath [] = []"
| "check_service_keys name svcPath (key # keys) =
     (if key \<notin> set validServiceKeys then [unknown_service_key name svcPath key] else []) @
     check_service_keys name svcPath keys"

text \<open>\<^verbatim>\<open>restart.split(':')[0]\<close>: the text before the first colon, all of it without one.\<close>

definition basePolicy :: "string \<Rightarrow> string" where
  "basePolicy restart = takeWhile (\<lambda>c. c \<noteq> CHR '':'') restart"

definition check_restart :: "string \<Rightarrow> string \<Rightarrow> jsval \<Rightarrow> ValidationError list option" where
  "check_restart name svcPath svc =
     (if get_prop svc ''restart'' \<noteq> JUndefined then
        (case js_String (get_prop svc ''restart'') of
           None \<Rightarrow> None
         | Some restart \<Rightarrow>
             (if basePolicy restart \<notin> set validRestartPolicies
              then Some [invalid_restart name svcPath restart] else Some []))
      else Some [])"

text \<open>
  One entry of \<^verbatim>\<open>svc.ports\<close>. The test applies to strings and numbers, on which
  \<^verbatim>\<open>String\<close> cannot throw; \<^verbatim>\<open>portStr\<close>, which the source computes first, is never read.
\<close>

definition port_ok :: "string \<Rightarrow> bool" where
  "port_ok pStr = (rx_test port_re_bare pStr \<or> rx_test port_re_mapped pStr)"

fun check_port :: "string \<Rightarrow> string \<Rightarrow> jsval \<Rightarrow> ValidationError list" where
  "check_port name svcPath (JStr s) =
     (if \<not> port_ok s then [unusual_port name svcPath s] else [])"
| "check_port name svcPath (JNum n) =
     (if \<not> port_ok (num_to_string n) then [unusual_port name svcPath (num_to_string n)]
      else [])"
| "check_port name svcPath port = []"

fun check_port_list :: "string \<Rightarrow> string \<Rightarrow> jsval list \<Rightarrow> ValidationError list" where
  "check_port_list name svcPath [] = []"
| "check_port_list name svcPath (port # ports) =
     check_port name svcPath port @ check_port_list name svcPath ports"

fun check_ports :: "string \<Rightarrow> string \<Rightarrow> jsval \<Rightarrow> ValidationError list" where
  "check_ports name svcPath (JArr ports) = check_port_list name svcPath ports"
| "check_ports name svcPath v = []"

text \<open>
  The names a \<^verbatim>\<open>depends_on\<close> value lists: the elements of a sequence, each converted with
  \<^verbatim>\<open>String\<close>, the keys of a mapping, nothing for anything else.
\<close>

fun deps_of :: "jsval \<Rightarrow> string list option" where
  "deps_of (JArr xs) = map_String xs"
| "deps_of (JObj kvs) = Some (object_keys (JObj kvs))"
| "deps_of v = Some []"

fun check_deps :: "string list \<Rightarrow> string \<Rightarrow> string \<Rightarrow> string list \<Rightarrow> ValidationError list" where
  "check_deps serviceNames name svcPath [] = []"
| "check_deps serviceNames name svcPath (dep # deps) =
     (if dep \<notin> set serviceNames then [undefined_dependency name svcPath dep] else []) @
     (if dep = name then [self_dependency name svcPath] else []) @
     check_deps serviceNames name svcPath deps"

definition check_depends_on ::
  "string list \<Rightarrow> string \<Rightarrow> string \<Rightarrow> jsval \<Rightarrow> ValidationError list option" where
  "check_depends_on serviceNames name svcPath svc =
     (if truthy (get_prop svc ''depends_on'') then
        (case deps_of (get_prop svc ''depends_on'') of
           None \<Rightarrow> None
         | Some deps \<Rightarrow> Some (check_deps serviceNames name svcPath deps))
      else Some [])"

definition check_environment :: "string \<Rightarrow> string \<Rightarrow> jsval \<Rightarrow> ValidationError list" where
  "check_environment name svcPath svc =
     (if get_prop svc ''environment'' \<noteq> JUndefined \<and> get_prop svc ''environment'' \<noteq> JNull
      then
        (if \<not> isArray (get_prop svc ''environment'') \<and>
            js_typeof (get_prop svc ''environment'') \<noteq> TObject
         then [environment_shape name svcPath] else [])
      else [])"

definition startsWith :: "string \<Rightarrow> string \<Rightarrow> bool" where
  "startsWith s p = (take (length p) s = p)"

fun check_volume :: "jsval \<Rightarrow> string \<Rightarrow> string \<Rightarrow> jsval \<Rightarrow> ValidationError list" where
  "check_volume root name svcPath (JStr vol) =
     (if CHR '':'' \<notin> set vol \<and> \<not> startsWith vol ''/'' \<and> \<not> startsWith vol ''.'' then
        (if truthy (get_prop root ''volumes'') \<and> js_typeof (get_prop root ''volumes'') = TObject
            \<and> vol \<notin> set (object_keys (get_prop root ''volumes''))
         then [undefined_volume name svcPath vol] else [])
      else [])"
| "check_volume root name svcPath v = []"

fun check_volume_list :: "jsval \<Rightarrow> string \<Rightarrow> string \<Rightarrow> jsval list \<Rightarrow> ValidationError list" where
  "check_volume_list root name svcPath [] = []"
| "check_volume_list root name svcPath (vol # vols) =
     check_volume root name svcPath vol @ check_volume_list root name svcPath vols"

fun check_volumes :: "jsval \<Rightarrow> string \<Rightarrow> string \<Rightarrow> jsval \<Rightarrow> ValidationError list" where
  "check_volumes root name svcPath (JArr vols) = check_volume_list root name svcPath vols"
| "check_volumes root name svcPath v = []"

text \<open>The body of the loop over \<^verbatim>\<open>Object.entries(services)\<close>, for one entry.\<close>

definition check_service ::
  "jsval \<Rightarrow> string list \<Rightarrow> string \<Rightarrow> jsval \<Rightarrow> ValidationError list option" where
  "check_service root serviceNames name def =
     (if js_typeof def \<noteq> TObject \<or> def = JNull
      then Some [service_not_mapping name (''services.'' @ name)]
      else
        (case check_restart name (''services.'' @ name) def of
           None \<Rightarrow> None
         | Some restartErrors \<Rightarrow>
             (case check_depends_on serviceNames name (''services.'' @ name) def of
                None \<Rightarrow> None
              | Some dependsErrors \<Rightarrow>
                  Some (check_image_or_build name (''services.'' @ name) def @
                        check_service_keys name (''services.'' @ name) (object_keys def) @
                        restartErrors @
                        check_ports name (''services.'' @ name) (get_prop def ''ports'') @
                        dependsErrors @
                        check_environment name (''services.'' @ name) def @
                        check_volumes root name (''services.'' @ name)
                          (get_prop def ''volumes'')))))"

fun check_services ::
  "jsval \<Rightarrow> string list \<Rightarrow> (string \<times> jsval) list \<Rightarrow> ValidationError list option" where
  "check_services root serviceNames [] = Some []"
| "check_services root serviceNames ((name, def) # entries) =
     (case check_service root serviceNames name def of
        None \<Rightarrow> None
      | Some errs \<Rightarrow>
          (case check_services root serviceNames entries of
             None \<Rightarrow> None
           | Some rest \<Rightarrow> Some (errs @ rest)))"

subsection \<open>Circular dependencies\<close>

text \<open>
  The closure \<^verbatim>\<open>hasCycle\<close> shares the sets \<^verbatim>\<open>visited\<close> and \<^verbatim>\<open>inStack\<close> and the array
  \<^verbatim>\<open>errors\<close> with \<^verbatim>\<open>validate\<close>: they are the state that the model passes along.
  \<open>hasCycle_deps\<close> is the loop over \<^verbatim>\<open>deps\<close> inside \<^verbatim>\<open>hasCycle(node)\<close>, together with
  the two statements after it.
\<close>

record cycle_state =
  visited :: "string set"
  inStack :: "string set"
  errors :: "ValidationError list"

function hasCycle :: "jsval \<Rightarrow> string list \<Rightarrow> string \<Rightarrow> cycle_state \<Rightarrow> (bool \<times> cycle_state) option"
  and hasCycle_deps ::
    "jsval \<Rightarrow> string list \<Rightarrow> string \<Rightarrow> string list \<Rightarrow> cycle_state \<Rightarrow> (bool \<times> cycle_state) option"
where
  "hasCycle services serviceNames node st =
     (if node \<in> inStack st then Some (True, st)
      else if node \<in> visited st then Some (False, st)
      else if truthy (get_prop (get_prop services node) ''depends_on'') then
        (case deps_of (get_prop (get_prop services node) ''depends_on'') of
           None \<Rightarrow> None
         | Some deps \<Rightarrow>
             hasCycle_deps services serviceNames node deps
               (st\<lparr>visited := insert node (visited st), inStack := insert node (inStack st)\<rparr>))
      else Some (False, st\<lparr>visited := insert node (visited st),
                           inStack := insert node (inStack st) - {node}\<rparr>))"
| "hasCycle_deps services serviceNames node [] st =
     Some (False, st\<lparr>inStack := inStack st - {node}\<rparr>)"
| "hasCycle_deps services serviceNames node (dep # deps) st =
     (if dep \<in> set serviceNames then
        (case hasCycle services serviceNames dep st of
           None \<Rightarrow> None
         | Some (True, st') \<Rightarrow>
             Some (True, st'\<lparr>errors := errors st' @ [circular_dependency node dep],
                             inStack := inStack st' - {node}\<rparr>)
         | Some (False, st') \<Rightarrow> hasCycle_deps services serviceNames node deps st')
      else hasCycle_deps services serviceNames node deps st)"
  by pat_completeness auto


text \<open>
  The recursion is nested: the loop goes on in the state that the call for a dependency
  returns. It terminates because a call that passes the two guards adds its node to
  \<^verbatim>\<open>visited\<close>, and no call removes one.
\<close>

lemma visited_mono_dom:
  "hasCycle_hasCycle_deps_dom (Inl (services, serviceNames, node, st)) \<Longrightarrow>
     hasCycle services serviceNames node st = Some (b, st') \<Longrightarrow> visited st \<subseteq> visited st'"
  "hasCycle_hasCycle_deps_dom (Inr (services, serviceNames, node, deps, st)) \<Longrightarrow>
     hasCycle_deps services serviceNames node deps st = Some (b, st') \<Longrightarrow>
     visited st \<subseteq> visited st'"
proof (induct services serviceNames node st and services serviceNames node deps st
    arbitrary: b st' and b st' rule: hasCycle_hasCycle_deps.pinduct)
  case (1 services serviceNames node st)
  then show ?case
    by (auto simp: hasCycle.psimps split: if_splits option.splits)
next
  case (2 services serviceNames node st)
  then show ?case by (auto simp: hasCycle_deps.psimps)
next
  case (3 services serviceNames node dep deps st)
  then show ?case
    by (fastforce simp: hasCycle_deps.psimps split: if_splits option.splits bool.splits)
qed

termination hasCycle
proof (relation "inv_image (less_than <*lex*> less_than)
    (\<lambda>x. case x of
       Inl (services, serviceNames, node, st) \<Rightarrow>
         (card (insert node (set serviceNames) - visited st), 0)
     | Inr (services, serviceNames, node, deps, st) \<Rightarrow>
         (card (set serviceNames - visited st), Suc (length deps)))", goal_cases)
  case 1
  show ?case by auto
next
  case (2 services serviceNames node st deps)
  have "set serviceNames - insert node (visited st) \<subset> insert node (set serviceNames) - visited st"
    using 2 by auto
  then have "card (set serviceNames - insert node (visited st))
      < card (insert node (set serviceNames) - visited st)"
    by (intro psubset_card_mono) auto
  then show ?case by simp
next
  case (3 services serviceNames node dep deps st)
  then show ?case by (simp add: insert_absorb)
next
  case (4 services serviceNames node dep deps st x2 x1 st')
  then have "visited st \<subseteq> visited st'"
    using visited_mono_dom(1) by blast
  then have "card (set serviceNames - visited st') \<le> card (set serviceNames - visited st)"
    by (intro card_mono) auto
  then show ?case by auto
next
  case (5 services serviceNames node dep deps st)
  then show ?case by simp
qed

declare hasCycle.simps [simp del]

text \<open>The loop \<^verbatim>\<open>for (const name of serviceNames) hasCycle(name)\<close>, which drops the results.\<close>

fun check_cycles ::
  "jsval \<Rightarrow> string list \<Rightarrow> string list \<Rightarrow> cycle_state \<Rightarrow> cycle_state option" where
  "check_cycles services serviceNames [] st = Some st"
| "check_cycles services serviceNames (name # names) st =
     (case hasCycle services serviceNames name st of
        None \<Rightarrow> None
      | Some (found, st') \<Rightarrow> check_cycles services serviceNames names st')"

subsection \<open>\<^verbatim>\<open>validate\<close>\<close>

definition validate :: "jsval \<Rightarrow> ValidationError list option" where
  "validate doc =
     (if js_typeof doc \<noteq> TObject \<or> doc = JNull \<or> isArray doc then Some [root_shape_error]
      else
        (if \<not> truthy (get_prop doc ''services'') then
           Some (check_top_level_keys (object_keys doc) @ check_version doc @
                 [missing_services])
         else if js_typeof (get_prop doc ''services'') \<noteq> TObject \<or>
                 get_prop doc ''services'' = JNull then
           Some (check_top_level_keys (object_keys doc) @ check_version doc @
                 [services_shape_error])
         else
           (case check_services doc (object_keys (get_prop doc ''services''))
                   (object_entries (get_prop doc ''services'')) of
              None \<Rightarrow> None
            | Some serviceErrors \<Rightarrow>
                (case check_cycles (get_prop doc ''services'')
                        (object_keys (get_prop doc ''services''))
                        (object_keys (get_prop doc ''services''))
                        \<lparr>visited = {}, inStack = {},
                         errors = check_top_level_keys (object_keys doc) @
                                  check_version doc @ serviceErrors\<rparr> of
                   None \<Rightarrow> None
                 | Some st \<Rightarrow> Some (errors st)))))"

subsection \<open>The dependency graph\<close>

text \<open>
  The edges that the search follows from a node: the names that the \<^verbatim>\<open>depends_on\<close> of the
  service lists and that are names of services. A list of edges stands for the
  diagnostics that name them.
\<close>

definition dependency_edge :: "jsval \<Rightarrow> string list \<Rightarrow> string \<Rightarrow> string \<Rightarrow> bool" where
  "dependency_edge services serviceNames node dep \<longleftrightarrow>
     dep \<in> set serviceNames \<and>
     truthy (get_prop (get_prop services node) ''depends_on'') \<and>
     (case deps_of (get_prop (get_prop services node) ''depends_on'') of
        None \<Rightarrow> False
      | Some deps \<Rightarrow> dep \<in> set deps)"

definition cycle_errors :: "(string \<times> string) list \<Rightarrow> ValidationError list" where
  "cycle_errors edges = map (\<lambda>(node, dep). circular_dependency node dep) edges"

definition dependency_graph :: "jsval \<Rightarrow> string list \<Rightarrow> (string \<times> string) set" where
  "dependency_graph services serviceNames =
     {(node, dep). dependency_edge services serviceNames node dep}"



text \<open>
  The nodes the search is done with: visited and no longer on the stack. While no cycle
  has been reported, every edge from such a node leads to such a node, and none of them
  lies on a cycle.
\<close>

definition finished :: "cycle_state \<Rightarrow> string set" where
  "finished st = visited st - inStack st"

definition finished_ok :: "(string \<times> string) set \<Rightarrow> string set \<Rightarrow> bool" where
  "finished_ok G C \<longleftrightarrow> (\<forall>c\<in>C. \<forall>d. (c, d) \<in> G \<longrightarrow> d \<in> C) \<and> (\<forall>c\<in>C. (c, c) \<notin> G\<^sup>+)"

subsection \<open>The diagnostics of one service\<close>

text \<open>
  The diagnostics that the restart check, the ports check and the \<^verbatim>\<open>depends_on\<close> check
  produce for the service of a given name.
\<close>

definition restart_error_of :: "string \<Rightarrow> ValidationError \<Rightarrow> bool" where
  "restart_error_of name e \<longleftrightarrow>
     (\<exists>restart. e = invalid_restart name (''services.'' @ name) restart)"

definition port_warning_of :: "string \<Rightarrow> ValidationError \<Rightarrow> bool" where
  "port_warning_of name e \<longleftrightarrow> (\<exists>pStr. e = unusual_port name (''services.'' @ name) pStr)"

definition dependency_error_of :: "string \<Rightarrow> ValidationError \<Rightarrow> bool" where
  "dependency_error_of name e \<longleftrightarrow>
     e = self_dependency name (''services.'' @ name) \<or>
     (\<exists>dep. e = undefined_dependency name (''services.'' @ name) dep)"

text \<open>
  From the specification of the ports check: an entry is objected to when it is a string
  or a number and its text matches neither pattern; \<open>port_text\<close> is that text.
\<close>

fun offending_port :: "jsval \<Rightarrow> bool" where
  "offending_port (JStr s) = (\<not> port_ok s)"
| "offending_port (JNum n) = (\<not> port_ok (num_to_string n))"
| "offending_port port = False"

fun port_text :: "jsval \<Rightarrow> string" where
  "port_text (JStr s) = s"
| "port_text (JNum n) = num_to_string n"
| "port_text port = []"

subsection \<open>Documents on which \<^verbatim>\<open>String\<close> cannot throw\<close>

text \<open>No mapping anywhere in the value has a key \<^verbatim>\<open>toString\<close>.\<close>

fun no_toString :: "jsval \<Rightarrow> bool"
  and no_toString_list :: "jsval list \<Rightarrow> bool"
  and no_toString_entries :: "(string \<times> jsval) list \<Rightarrow> bool" where
  "no_toString (JArr xs) = no_toString_list xs"
| "no_toString (JObj kvs) = no_toString_entries kvs"
| "no_toString v = True"
| "no_toString_list [] = True"
| "no_toString_list (x # xs) = (no_toString x \<and> no_toString_list xs)"
| "no_toString_entries [] = True"
| "no_toString_entries ((k, v) # kvs) =
     (k \<noteq> ''toString'' \<and> no_toString v \<and> no_toString_entries kvs)"

section \<open>Properties\<close>

subsection \<open>The depth-first search\<close>

text \<open>The ways a call of \<^verbatim>\<open>hasCycle\<close> and an iteration of its loop can go.\<close>

lemma hasCycle_cases:
  assumes "hasCycle services serviceNames node st = Some (b, st')"
  obtains (on_stack) "node \<in> inStack st" "b" "st' = st"
  | (seen) "node \<notin> inStack st" "node \<in> visited st" "\<not> b" "st' = st"
  | (leaf) "node \<notin> inStack st" "node \<notin> visited st"
      "\<not> truthy (get_prop (get_prop services node) ''depends_on'')" "\<not> b"
      "st' = st\<lparr>visited := insert node (visited st),
                 inStack := insert node (inStack st) - {node}\<rparr>"
  | (expand) deps where "node \<notin> inStack st" "node \<notin> visited st"
      "truthy (get_prop (get_prop services node) ''depends_on'')"
      "deps_of (get_prop (get_prop services node) ''depends_on'') = Some deps"
      "hasCycle_deps services serviceNames node deps
         (st\<lparr>visited := insert node (visited st), inStack := insert node (inStack st)\<rparr>)
       = Some (b, st')"
  using assms unfolding hasCycle.simps [of services serviceNames node st]
  by (auto split: if_splits option.splits)

lemma hasCycle_deps_cases:
  assumes "hasCycle_deps services serviceNames node (dep # deps) st = Some (b, st')"
  obtains (skip) "dep \<notin> set serviceNames"
      "hasCycle_deps services serviceNames node deps st = Some (b, st')"
  | (found) st1 where "dep \<in> set serviceNames"
      "hasCycle services serviceNames dep st = Some (True, st1)" "b"
      "st' = st1\<lparr>errors := errors st1 @ [circular_dependency node dep],
                  inStack := inStack st1 - {node}\<rparr>"
  | (continue) st1 where "dep \<in> set serviceNames"
      "hasCycle services serviceNames dep st = Some (False, st1)"
      "hasCycle_deps services serviceNames node deps st1 = Some (b, st')"
  using assms unfolding hasCycle_deps.simps
  by (auto split: if_splits option.splits bool.splits)

lemma hasCycle_inStack:
  "hasCycle services serviceNames node st = Some (b, st') \<Longrightarrow> inStack st' = inStack st"
  "hasCycle_deps services serviceNames node deps st = Some (b, st') \<Longrightarrow>
     inStack st' = inStack st - {node}"
proof (induct services serviceNames node st and services serviceNames node deps st
    arbitrary: b st' and b st' rule: hasCycle_hasCycle_deps.induct)
  case (1 services serviceNames node st)
  from 1(2) show ?case
  proof (cases rule: hasCycle_cases)
    case (expand deps)
    from 1(1)[OF expand(1,2,3,4,5)] expand(1) show ?thesis by auto
  qed auto
next
  case (2 services serviceNames node st)
  then show ?case by auto
next
  case (3 services serviceNames node dep deps st)
  from 3(4) show ?case
  proof (cases rule: hasCycle_deps_cases)
    case skip
    from 3(3)[OF skip] show ?thesis .
  next
    case (found st1)
    from 3(1)[OF found(1,2)] found(4) show ?thesis by simp
  next
    case (continue st1)
    from 3(2)[OF continue(1,2) refl refl continue(3)] 3(1)[OF continue(1,2)]
    show ?thesis by simp
  qed
qed


lemma hasCycle_visited:
  "hasCycle services serviceNames node st = Some (b, st') \<Longrightarrow>
     visited st \<subseteq> visited st' \<and> visited st' \<subseteq> visited st \<union> insert node (set serviceNames)"
  "hasCycle_deps services serviceNames node deps st = Some (b, st') \<Longrightarrow>
     visited st \<subseteq> visited st' \<and> visited st' \<subseteq> visited st \<union> set serviceNames"
proof (induct services serviceNames node st and services serviceNames node deps st
    arbitrary: b st' and b st' rule: hasCycle_hasCycle_deps.induct)
  case (1 services serviceNames node st)
  from 1(2) show ?case
  proof (cases rule: hasCycle_cases)
    case (expand deps)
    from 1(1)[OF expand(1,2,3,4,5)] show ?thesis by auto
  qed auto
next
  case (2 services serviceNames node st)
  then show ?case by auto
next
  case (3 services serviceNames node dep deps st)
  from 3(4) show ?case
  proof (cases rule: hasCycle_deps_cases)
    case skip
    from 3(3)[OF skip] show ?thesis .
  next
    case (found st1)
    from 3(1)[OF found(1,2)] found(1,4) show ?thesis by auto
  next
    case (continue st1)
    from 3(2)[OF continue(1,2) refl refl continue(3)] 3(1)[OF continue(1,2)] continue(1)
    show ?thesis by auto
  qed
qed

lemma cycle_errors_simps [simp]:
  "cycle_errors [] = []"
  "cycle_errors (edges @ edges') = cycle_errors edges @ cycle_errors edges'"
  "cycle_errors [(node, dep)] = [circular_dependency node dep]"
  by (simp_all add: cycle_errors_def)

lemma hasCycle_errors:
  "hasCycle services serviceNames node st = Some (b, st') \<Longrightarrow>
     \<exists>edges. errors st' = errors st @ cycle_errors edges \<and>
       distinct (map fst edges) \<and>
       set (map fst edges) \<subseteq> visited st' - visited st \<and>
       (\<not> b \<longrightarrow> edges = []) \<and>
       (\<forall>(n, d) \<in> set edges. dependency_edge services serviceNames n d)"
  "hasCycle_deps services serviceNames node deps st = Some (b, st') \<Longrightarrow>
     node \<in> visited st \<Longrightarrow>
     truthy (get_prop (get_prop services node) ''depends_on'') \<Longrightarrow>
     deps_of (get_prop (get_prop services node) ''depends_on'') = Some all_deps \<Longrightarrow>
     set deps \<subseteq> set all_deps \<Longrightarrow>
     \<exists>edges. errors st' = errors st @ cycle_errors edges \<and>
       distinct (map fst edges) \<and>
       set (map fst edges) \<subseteq> insert node (visited st' - visited st) \<and>
       (\<not> b \<longrightarrow> edges = []) \<and>
       (\<forall>(n, d) \<in> set edges. dependency_edge services serviceNames n d)"
proof (induct services serviceNames node st and services serviceNames node deps st
    arbitrary: b st' and b st' all_deps rule: hasCycle_hasCycle_deps.induct)
  case (1 services serviceNames node st)
  from 1(2) show ?case
  proof (cases rule: hasCycle_cases)
    case on_stack
    then show ?thesis by (intro exI[of _ "[]"]) simp
  next
    case seen
    then show ?thesis by (intro exI[of _ "[]"]) simp
  next
    case leaf
    then show ?thesis by (intro exI[of _ "[]"]) simp
  next
    case (expand deps)
    let ?st1 = "st\<lparr>visited := insert node (visited st), inStack := insert node (inStack st)\<rparr>"
    have "node \<in> visited ?st1" by simp
    from 1(1)[OF expand(1,2,3,4,5) this expand(3,4) subset_refl]
    obtain edges where e: "errors st' = errors ?st1 @ cycle_errors edges"
      "distinct (map fst edges)"
      "set (map fst edges) \<subseteq> insert node (visited st' - visited ?st1)"
      "\<not> b \<longrightarrow> edges = []"
      "\<forall>(n, d) \<in> set edges. dependency_edge services serviceNames n d"
      by blast
    from hasCycle_visited(2)[OF expand(5)] have "node \<in> visited st'" by auto
    with e(3) expand(2) have "set (map fst edges) \<subseteq> visited st' - visited st" by auto
    with e show ?thesis by (intro exI[of _ edges]) simp
  qed
next
  case (2 services serviceNames node st)
  then show ?case by (intro exI[of _ "[]"]) auto
next
  case (3 services serviceNames node dep deps st)
  from 3(5-8) have pre: "node \<in> visited st"
    "truthy (get_prop (get_prop services node) ''depends_on'')"
    "deps_of (get_prop (get_prop services node) ''depends_on'') = Some all_deps"
    "set deps \<subseteq> set all_deps" "dep \<in> set all_deps" by auto
  from 3(4) show ?case
  proof (cases rule: hasCycle_deps_cases)
    case skip
    from 3(3)[OF skip pre(1,2,3,4)] show ?thesis .
  next
    case (found st1)
    from 3(1)[OF found(1,2)]
    obtain edges where e: "errors st1 = errors st @ cycle_errors edges"
      "distinct (map fst edges)"
      "set (map fst edges) \<subseteq> visited st1 - visited st"
      "\<forall>(n, d) \<in> set edges. dependency_edge services serviceNames n d"
      by blast
    have edge: "dependency_edge services serviceNames node dep"
      using found(1) pre by (simp add: dependency_edge_def)
    let ?edges = "edges @ [(node, dep)]"
    have "errors st' = errors st @ cycle_errors ?edges" using e(1) found(4) by simp
    moreover have "distinct (map fst ?edges)" using e(2,3) pre(1) by auto
    moreover have "set (map fst ?edges) \<subseteq> insert node (visited st' - visited st)"
      using e(3) found(4) by auto
    moreover have "\<forall>(n, d) \<in> set ?edges. dependency_edge services serviceNames n d"
      using e(4) edge by auto
    ultimately show ?thesis using found(3) by (intro exI[of _ ?edges]) blast
  next
    case (continue st1)
    from 3(1)[OF continue(1,2)] have same: "errors st1 = errors st" by auto
    from hasCycle_visited(1)[OF continue(2)] have mono: "visited st \<subseteq> visited st1" by simp
    with pre(1) have "node \<in> visited st1" by auto
    from 3(2)[OF continue(1,2) refl refl continue(3) this pre(2,3,4)]
    obtain edges where e: "errors st' = errors st1 @ cycle_errors edges"
      "distinct (map fst edges)"
      "set (map fst edges) \<subseteq> insert node (visited st' - visited st1)"
      "\<not> b \<longrightarrow> edges = []"
      "\<forall>(n, d) \<in> set edges. dependency_edge services serviceNames n d"
      by blast
    from e(3) mono have "set (map fst edges) \<subseteq> insert node (visited st' - visited st)"
      by auto
    with e same show ?thesis by (intro exI[of _ edges]) simp
  qed
qed


text \<open>
  The search is correct: it reports something exactly when the dependency graph has a
  cycle. A call that returns \<open>True\<close> has reached a node on the stack or found a cycle;
  a call that returns \<open>False\<close> leaves its node finished.
\<close>

lemma dependency_graph_edge:
  assumes "truthy (get_prop (get_prop services node) ''depends_on'')"
    and "deps_of (get_prop (get_prop services node) ''depends_on'') = Some deps"
  shows "(node, d) \<in> dependency_graph services serviceNames \<longleftrightarrow>
           d \<in> set serviceNames \<and> d \<in> set deps"
  using assms by (auto simp: dependency_graph_def dependency_edge_def)

lemma dependency_graph_no_edge:
  assumes "\<not> truthy (get_prop (get_prop services node) ''depends_on'')"
  shows "(node, d) \<notin> dependency_graph services serviceNames"
  using assms by (auto simp: dependency_graph_def dependency_edge_def)

lemma hasCycle_True:
  "hasCycle services serviceNames node st = Some (True, st') \<Longrightarrow>
     (\<exists>x. (x, x) \<in> (dependency_graph services serviceNames)\<^sup>+) \<or>
     (\<exists>x\<in>inStack st. (node, x) \<in> (dependency_graph services serviceNames)\<^sup>*)"
  "hasCycle_deps services serviceNames node deps st = Some (True, st') \<Longrightarrow>
     (\<exists>x. (x, x) \<in> (dependency_graph services serviceNames)\<^sup>+) \<or>
     (\<exists>d\<in>set deps. d \<in> set serviceNames \<and>
        (\<exists>x\<in>inStack st. (d, x) \<in> (dependency_graph services serviceNames)\<^sup>*))"
proof (induct services serviceNames node st and services serviceNames node deps st
    arbitrary: st' and st' rule: hasCycle_hasCycle_deps.induct)
  case (1 services serviceNames node st)
  let ?G = "dependency_graph services serviceNames"
  from 1(2) show ?case
  proof (cases rule: hasCycle_cases)
    case on_stack
    then show ?thesis by blast
  next
    case (expand deps)
    from 1(1)[OF expand(1,2,3,4,5)]
    consider "\<exists>x. (x, x) \<in> ?G\<^sup>+"
      | d x where "d \<in> set deps" "d \<in> set serviceNames" "x \<in> insert node (inStack st)"
          "(d, x) \<in> ?G\<^sup>*"
      by auto
    then show ?thesis
    proof cases
      case 1
      then show ?thesis by blast
    next
      case 2
      have edge: "(node, d) \<in> ?G"
        using dependency_graph_edge[OF expand(3,4)] 2(1,2) by blast
      show ?thesis
      proof (cases "x = node")
        case True
        with edge 2(4) have "(node, node) \<in> ?G\<^sup>+" by (metis rtrancl_into_trancl2)
        then show ?thesis by blast
      next
        case False
        with 2(3) have "x \<in> inStack st" by simp
        moreover from edge 2(4) have "(node, x) \<in> ?G\<^sup>*"
          by (metis converse_rtrancl_into_rtrancl)
        ultimately show ?thesis by blast
      qed
    qed
  qed auto
next
  case (2 services serviceNames node st)
  then show ?case by simp
next
  case (3 services serviceNames node dep deps st)
  from 3(4) show ?case
  proof (cases rule: hasCycle_deps_cases)
    case skip
    from 3(3)[OF skip] show ?thesis by auto
  next
    case (found st1)
    from 3(1)[OF found(1,2)] found(1) show ?thesis by auto
  next
    case (continue st1)
    from 3(2)[OF continue(1,2) refl refl continue(3)] hasCycle_inStack(1)[OF continue(2)]
    show ?thesis by auto
  qed
qed

lemma hasCycle_deps_True_errors:
  "hasCycle_deps services serviceNames node deps st = Some (True, st') \<Longrightarrow>
     errors st' \<noteq> errors st"
proof (induction deps arbitrary: st)
  case Nil
  then show ?case by simp
next
  case (Cons dep deps)
  from Cons.prems show ?case
  proof (cases rule: hasCycle_deps_cases)
    case skip
    then show ?thesis using Cons.IH by blast
  next
    case (found st1)
    from hasCycle_errors(1)[OF found(2)] found(4) show ?thesis by auto
  next
    case (continue st1)
    from hasCycle_errors(1)[OF continue(2)] have "errors st1 = errors st" by auto
    with Cons.IH[OF continue(3)] show ?thesis by simp
  qed
qed

lemma hasCycle_True_errors:
  assumes "hasCycle services serviceNames node st = Some (True, st')" "node \<notin> inStack st"
  shows "errors st' \<noteq> errors st"
  using assms(1)
proof (cases rule: hasCycle_cases)
  case (expand deps)
  from hasCycle_deps_True_errors[OF expand(5)] show ?thesis by simp
qed (use assms(2) in auto)

lemma finished_ok_insert:
  assumes ok: "finished_ok G C" and succ: "\<And>d. (node, d) \<in> G \<Longrightarrow> d \<in> C" and "node \<notin> C"
  shows "finished_ok G (insert node C)"
proof -
  have closed: "\<And>c d. c \<in> C \<Longrightarrow> (c, d) \<in> G\<^sup>* \<Longrightarrow> d \<in> C"
  proof -
    fix c d assume "c \<in> C" "(c, d) \<in> G\<^sup>*"
    from this(2,1) show "d \<in> C"
      by (induction rule: rtrancl_induct) (use ok in \<open>auto simp: finished_ok_def\<close>)
  qed
  have "(node, node) \<notin> G\<^sup>+"
  proof
    assume "(node, node) \<in> G\<^sup>+"
    then obtain d where "(node, d) \<in> G" "(d, node) \<in> G\<^sup>*" by (meson tranclD)
    with succ closed have "node \<in> C" by blast
    with \<open>node \<notin> C\<close> show False by simp
  qed
  with ok succ show ?thesis by (auto simp: finished_ok_def)
qed

lemma hasCycle_False:
  "hasCycle services serviceNames node st = Some (False, st') \<Longrightarrow>
     finished_ok (dependency_graph services serviceNames) (finished st) \<Longrightarrow>
     finished_ok (dependency_graph services serviceNames) (finished st') \<and> node \<in> finished st'"
  "hasCycle_deps services serviceNames node deps st = Some (False, st') \<Longrightarrow>
     finished_ok (dependency_graph services serviceNames) (finished st) \<Longrightarrow>
     node \<in> inStack st \<Longrightarrow>
     finished_ok (dependency_graph services serviceNames) (visited st' - inStack st) \<and>
     (\<forall>d\<in>set deps. d \<in> set serviceNames \<longrightarrow> d \<in> visited st' - inStack st)"
proof (induct services serviceNames node st and services serviceNames node deps st
    arbitrary: st' and st' rule: hasCycle_hasCycle_deps.induct)
  case (1 services serviceNames node st)
  let ?G = "dependency_graph services serviceNames"
  from 1(2) show ?case
  proof (cases rule: hasCycle_cases)
    case on_stack
    then show ?thesis by simp
  next
    case seen
    with 1(3) show ?thesis by (simp add: finished_def)
  next
    case leaf
    then have fin: "finished st' = insert node (finished st)"
      by (auto simp: finished_def)
    have "node \<notin> finished st" using leaf(2) by (simp add: finished_def)
    with finished_ok_insert[OF 1(3), of node] dependency_graph_no_edge[OF leaf(3)] fin
    show ?thesis by auto
  next
    case (expand deps)
    let ?st1 = "st\<lparr>visited := insert node (visited st), inStack := insert node (inStack st)\<rparr>"
    have "finished ?st1 = finished st" using expand(2) by (auto simp: finished_def)
    with 1(3) have ok1: "finished_ok ?G (finished ?st1)" by simp
    have "node \<in> inStack ?st1" by simp
    from 1(1)[OF expand(1,2,3,4,5) ok1 this]
    have ok': "finished_ok ?G (visited st' - inStack ?st1)"
      and succ: "\<forall>d\<in>set deps. d \<in> set serviceNames \<longrightarrow> d \<in> visited st' - inStack ?st1"
      by auto
    from hasCycle_inStack(2)[OF expand(5)] expand(1) have stack: "inStack st' = inStack st"
      by auto
    from hasCycle_visited(2)[OF expand(5)] have "node \<in> visited st'" by auto
    with stack expand(1)
    have fin: "finished st' = insert node (visited st' - inStack ?st1)"
      by (auto simp: finished_def)
    have "\<And>d. (node, d) \<in> ?G \<Longrightarrow> d \<in> visited st' - inStack ?st1"
      using dependency_graph_edge[OF expand(3,4)] succ by blast
    from finished_ok_insert[OF ok' this] fin show ?thesis by auto
  qed
next
  case (2 services serviceNames node st)
  then show ?case by (auto simp: finished_def)
next
  case (3 services serviceNames node dep deps st)
  from 3(4) show ?case
  proof (cases rule: hasCycle_deps_cases)
    case skip
    from 3(3)[OF skip 3(5,6)] skip(1) show ?thesis by auto
  next
    case (found st1)
    then show ?thesis by simp
  next
    case (continue st1)
    from 3(1)[OF continue(1,2) 3(5)]
    have ok1: "finished_ok (dependency_graph services serviceNames) (finished st1)"
      and dep: "dep \<in> finished st1" by auto
    from hasCycle_inStack(1)[OF continue(2)] have stack: "inStack st1 = inStack st" .
    with 3(6) have "node \<in> inStack st1" by simp
    from 3(2)[OF continue(1,2) refl refl continue(3) ok1 this] stack
    have *: "finished_ok (dependency_graph services serviceNames) (visited st' - inStack st)"
      "\<forall>d\<in>set deps. d \<in> set serviceNames \<longrightarrow> d \<in> visited st' - inStack st"
      by auto
    from hasCycle_visited(2)[OF continue(3)] dep stack
    have "dep \<in> visited st' - inStack st" by (auto simp: finished_def)
    with * show ?thesis by auto
  qed
qed


lemma hasCycle_visits:
  assumes "hasCycle services serviceNames node st = Some (b, st')" "node \<notin> inStack st"
  shows "node \<in> visited st'"
  using assms(1)
proof (cases rule: hasCycle_cases)
  case (expand deps)
  from hasCycle_visited(2)[OF expand(5)] show ?thesis by auto
qed (use assms(2) in auto)

lemma check_cycles_errors:
  "check_cycles services serviceNames names st = Some st' \<Longrightarrow>
     inStack st' = inStack st \<and> visited st \<subseteq> visited st' \<and>
     visited st' \<subseteq> visited st \<union> set names \<union> set serviceNames \<and>
     (\<exists>edges. errors st' = errors st @ cycle_errors edges \<and>
        distinct (map fst edges) \<and>
        set (map fst edges) \<subseteq> visited st' - visited st \<and>
        (\<forall>(n, d) \<in> set edges. dependency_edge services serviceNames n d))"
proof (induction names arbitrary: st)
  case Nil
  then show ?case by (intro conjI exI[of _ "[]"]) auto
next
  case (Cons name names)
  from Cons.prems obtain b st1 where
    h: "hasCycle services serviceNames name st = Some (b, st1)"
    and r: "check_cycles services serviceNames names st1 = Some st'"
    by (auto split: option.splits)
  from hasCycle_errors(1)[OF h]
  obtain e1 where e1: "errors st1 = errors st @ cycle_errors e1" "distinct (map fst e1)"
    "set (map fst e1) \<subseteq> visited st1 - visited st"
    "\<forall>(n, d) \<in> set e1. dependency_edge services serviceNames n d"
    by blast
  from Cons.IH[OF r]
  obtain e2 where e2: "errors st' = errors st1 @ cycle_errors e2" "distinct (map fst e2)"
    "set (map fst e2) \<subseteq> visited st' - visited st1"
    "\<forall>(n, d) \<in> set e2. dependency_edge services serviceNames n d"
    and rest: "inStack st' = inStack st1" "visited st1 \<subseteq> visited st'"
    "visited st' \<subseteq> visited st1 \<union> set names \<union> set serviceNames"
    by blast
  note v = hasCycle_visited(1)[OF h] and s = hasCycle_inStack(1)[OF h]
  have "errors st' = errors st @ cycle_errors (e1 @ e2)" using e1(1) e2(1) by simp
  moreover have "distinct (map fst (e1 @ e2))" using e1(2,3) e2(2,3) by auto
  moreover have "set (map fst (e1 @ e2)) \<subseteq> visited st' - visited st"
    using e1(3) e2(3) v rest(2) by auto
  moreover have "\<forall>(n, d) \<in> set (e1 @ e2). dependency_edge services serviceNames n d"
    using e1(4) e2(4) by auto
  moreover have "inStack st' = inStack st" using rest(1) s by simp
  moreover have "visited st \<subseteq> visited st'" using v rest(2) by auto
  moreover have "visited st' \<subseteq> visited st \<union> set (name # names) \<union> set serviceNames"
    using v rest(3) by auto
  ultimately show ?case by (intro conjI exI[of _ "e1 @ e2"]) blast+
qed

lemma check_cycles_visits:
  "check_cycles services serviceNames names st = Some st' \<Longrightarrow> inStack st = {} \<Longrightarrow>
     set names \<subseteq> visited st'"
proof (induction names arbitrary: st)
  case Nil
  then show ?case by simp
next
  case (Cons name names)
  from Cons.prems(1) obtain b st1 where
    h: "hasCycle services serviceNames name st = Some (b, st1)"
    and r: "check_cycles services serviceNames names st1 = Some st'"
    by (auto split: option.splits)
  from hasCycle_visits[OF h] Cons.prems(2) have "name \<in> visited st1" by simp
  moreover from check_cycles_errors[OF r] have "visited st1 \<subseteq> visited st'" by simp
  moreover from hasCycle_inStack(1)[OF h] Cons.prems(2) have "inStack st1 = {}" by simp
  from Cons.IH[OF r this] have "set names \<subseteq> visited st'" .
  ultimately show ?case by auto
qed

lemma check_cycles_sound:
  "check_cycles services serviceNames names st = Some st' \<Longrightarrow> inStack st = {} \<Longrightarrow>
     errors st' \<noteq> errors st \<Longrightarrow>
     \<exists>x. (x, x) \<in> (dependency_graph services serviceNames)\<^sup>+"
proof (induction names arbitrary: st)
  case Nil
  then show ?case by simp
next
  case (Cons name names)
  from Cons.prems(1) obtain b st1 where
    h: "hasCycle services serviceNames name st = Some (b, st1)"
    and r: "check_cycles services serviceNames names st1 = Some st'"
    by (auto split: option.splits)
  show ?case
  proof (cases "errors st1 = errors st")
    case True
    from hasCycle_inStack(1)[OF h] Cons.prems(2) have "inStack st1 = {}" by simp
    from Cons.IH[OF r this] True Cons.prems(3) show ?thesis by simp
  next
    case False
    with hasCycle_errors(1)[OF h] have b by auto
    with hasCycle_True(1)[of services serviceNames name st st1] h Cons.prems(2)
    show ?thesis by auto
  qed
qed

lemma check_cycles_complete:
  "check_cycles services serviceNames names st = Some st' \<Longrightarrow> inStack st = {} \<Longrightarrow>
     errors st' = errors st \<Longrightarrow>
     finished_ok (dependency_graph services serviceNames) (finished st) \<Longrightarrow>
     finished_ok (dependency_graph services serviceNames) (finished st') \<and>
     set names \<subseteq> finished st'"
proof (induction names arbitrary: st)
  case Nil
  then show ?case by simp
next
  case (Cons name names)
  from Cons.prems(1) obtain b st1 where
    h: "hasCycle services serviceNames name st = Some (b, st1)"
    and r: "check_cycles services serviceNames names st1 = Some st'"
    by (auto split: option.splits)
  from hasCycle_errors(1)[OF h]
  obtain e1 where e1: "errors st1 = errors st @ cycle_errors e1" by blast
  from check_cycles_errors[OF r]
  obtain e2 where e2: "errors st' = errors st1 @ cycle_errors e2" by blast
  from e1 e2 Cons.prems(3) have "errors st @ (cycle_errors e1 @ cycle_errors e2) = errors st @ []"
    by simp
  then have "cycle_errors e1 = []" by (simp only: same_append_eq append_is_Nil_conv)
  with e1 have same: "errors st1 = errors st" by simp
  have "\<not> b"
  proof
    assume b
    with h have "hasCycle services serviceNames name st = Some (True, st1)" by simp
    from hasCycle_True_errors[OF this] Cons.prems(2) same show False by simp
  qed
  with h have h': "hasCycle services serviceNames name st = Some (False, st1)" by simp
  from hasCycle_False(1)[OF h' Cons.prems(4)]
  have ok1: "finished_ok (dependency_graph services serviceNames) (finished st1)"
    and name: "name \<in> finished st1" by auto
  from hasCycle_inStack(1)[OF h] Cons.prems(2) have stack1: "inStack st1 = {}" by simp
  from Cons.IH[OF r stack1 _ ok1] same Cons.prems(3)
  have *: "finished_ok (dependency_graph services serviceNames) (finished st')"
    "set names \<subseteq> finished st'" by auto
  from check_cycles_errors[OF r] stack1 name have "name \<in> finished st'"
    by (auto simp: finished_def)
  with * show ?case by simp
qed

lemma check_cycles_reports_iff:
  assumes "check_cycles services serviceNames serviceNames
             \<lparr>visited = {}, inStack = {}, errors = errs\<rparr> = Some st"
  shows "errors st \<noteq> errs \<longleftrightarrow> (\<exists>x. (x, x) \<in> (dependency_graph services serviceNames)\<^sup>+)"
proof
  assume "errors st \<noteq> errs"
  with check_cycles_sound[OF assms] show "\<exists>x. (x, x) \<in> (dependency_graph services serviceNames)\<^sup>+"
    by simp
next
  let ?G = "dependency_graph services serviceNames"
  assume "\<exists>x. (x, x) \<in> ?G\<^sup>+"
  then obtain x where x: "(x, x) \<in> ?G\<^sup>+" ..
  then obtain y where "(y, x) \<in> ?G" by (meson tranclE)
  then have xn: "x \<in> set serviceNames"
    by (simp add: dependency_graph_def dependency_edge_def)
  show "errors st \<noteq> errs"
  proof
    assume same: "errors st = errs"
    have "finished_ok ?G (finished \<lparr>visited = {}, inStack = {}, errors = errs\<rparr>)"
      by (simp add: finished_ok_def finished_def)
    from check_cycles_complete[OF assms _ _ this] same xn
    have "finished_ok ?G (finished st)" "x \<in> finished st" by auto
    with x show False by (auto simp: finished_ok_def)
  qed
qed




subsection \<open>The diagnostics of the checks\<close>

text \<open>
  Which diagnostics each check can produce, and that a diagnostic of the restart, ports
  or \<^verbatim>\<open>depends_on\<close> check tells the service it is about: the messages of different
  checks differ, and the path holds the name.
\<close>

lemmas diagnostic_defs =
  root_shape_error_def unknown_top_level_key_def version_obsolete_def missing_services_def
  services_shape_error_def service_not_mapping_def missing_image_or_build_def
  unknown_service_key_def invalid_restart_def unusual_port_def undefined_dependency_def
  self_dependency_def environment_shape_def undefined_volume_def circular_dependency_def
  quoted_def

lemma check_top_level_keys_filter:
  "check_top_level_keys keys =
     map unknown_top_level_key (filter (\<lambda>key. key \<notin> set validTopLevelKeys) keys)"
  by (induction keys) simp_all

lemma check_service_keys_filter:
  "check_service_keys name svcPath keys =
     map (unknown_service_key name svcPath) (filter (\<lambda>key. key \<notin> set validServiceKeys) keys)"
  by (induction keys) simp_all

lemma check_port_list_concat:
  "check_port_list name svcPath ports = concat (map (check_port name svcPath) ports)"
  by (induction ports) simp_all

lemma check_volume_list_concat:
  "check_volume_list root name svcPath vols = concat (map (check_volume root name svcPath) vols)"
  by (induction vols) simp_all

lemma check_deps_concat:
  "check_deps serviceNames name svcPath deps =
     concat (map (\<lambda>dep.
       (if dep \<notin> set serviceNames then [undefined_dependency name svcPath dep] else []) @
       (if dep = name then [self_dependency name svcPath] else [])) deps)"
  by (induction deps) simp_all

lemma check_port_diag:
  "e \<in> set (check_port name svcPath port) \<Longrightarrow> \<exists>pStr. e = unusual_port name svcPath pStr"
  by (cases port) (auto split: if_splits)

lemma check_ports_diag:
  "e \<in> set (check_ports name svcPath v) \<Longrightarrow> \<exists>pStr. e = unusual_port name svcPath pStr"
  by (cases v) (auto simp: check_port_list_concat dest: check_port_diag)

lemma check_volume_diag:
  "e \<in> set (check_volume root name svcPath v) \<Longrightarrow> \<exists>vol. e = undefined_volume name svcPath vol"
  by (cases v) (auto split: if_splits)

lemma check_volumes_diag:
  "e \<in> set (check_volumes root name svcPath v) \<Longrightarrow>
     \<exists>vol. e = undefined_volume name svcPath vol"
  by (cases v) (auto simp: check_volume_list_concat dest: check_volume_diag)

lemma check_deps_diag:
  "e \<in> set (check_deps serviceNames name svcPath deps) \<Longrightarrow>
     (\<exists>dep. e = undefined_dependency name svcPath dep \<and> dep \<in> set deps \<and>
        dep \<notin> set serviceNames) \<or>
     (e = self_dependency name svcPath \<and> name \<in> set deps)"
  by (auto simp: check_deps_concat split: if_splits)

text \<open>The parts of the diagnostics of one service.\<close>

lemma check_service_parts:
  assumes "check_service root serviceNames name def = Some errs"
    and "js_typeof def = TObject" "def \<noteq> JNull"
  obtains restartErrors dependsErrors where
    "check_restart name (''services.'' @ name) def = Some restartErrors"
    "check_depends_on serviceNames name (''services.'' @ name) def = Some dependsErrors"
    "errs = check_image_or_build name (''services.'' @ name) def @
            check_service_keys name (''services.'' @ name) (object_keys def) @
            restartErrors @
            check_ports name (''services.'' @ name) (get_prop def ''ports'') @
            dependsErrors @
            check_environment name (''services.'' @ name) def @
            check_volumes root name (''services.'' @ name) (get_prop def ''volumes'')"
  using assms by (auto simp: check_service_def split: option.splits)

lemma check_restart_diag:
  assumes "check_restart name svcPath svc = Some errs" "e \<in> set errs"
  shows "\<exists>restart. e = invalid_restart name svcPath restart \<and>
           get_prop svc ''restart'' \<noteq> JUndefined \<and>
           js_String (get_prop svc ''restart'') = Some restart \<and>
           basePolicy restart \<notin> set validRestartPolicies"
  using assms by (auto simp: check_restart_def split: if_splits option.splits)

lemma check_depends_on_diag:
  assumes "check_depends_on serviceNames name svcPath svc = Some errs" "e \<in> set errs"
  shows "(\<exists>dep. e = undefined_dependency name svcPath dep \<and> dep \<notin> set serviceNames) \<or>
         e = self_dependency name svcPath"
  using assms
  by (auto simp: check_depends_on_def split: if_splits option.splits dest: check_deps_diag)

lemma check_service_diag_cases:
  assumes "check_service root serviceNames name def = Some errs" "e \<in> set errs"
  obtains (not_mapping) "e = service_not_mapping name (''services.'' @ name)"
  | (image) "e = missing_image_or_build name (''services.'' @ name)"
  | (key) key where "e = unknown_service_key name (''services.'' @ name) key"
  | (restart) restart where "e = invalid_restart name (''services.'' @ name) restart"
      "js_typeof def = TObject" "def \<noteq> JNull"
      "get_prop def ''restart'' \<noteq> JUndefined"
      "js_String (get_prop def ''restart'') = Some restart"
      "basePolicy restart \<notin> set validRestartPolicies"
  | (port) pStr where "e = unusual_port name (''services.'' @ name) pStr"
  | (undefined) dep where "e = undefined_dependency name (''services.'' @ name) dep"
      "dep \<notin> set serviceNames"
  | (self) "e = self_dependency name (''services.'' @ name)"
  | (environment) "e = environment_shape name (''services.'' @ name)"
  | (volume) vol where "e = undefined_volume name (''services.'' @ name) vol"
proof (cases "js_typeof def = TObject \<and> def \<noteq> JNull")
  case False
  with assms have "e = service_not_mapping name (''services.'' @ name)"
    by (auto simp: check_service_def)
  then show ?thesis by (rule not_mapping)
next
  case True
  then have t: "js_typeof def = TObject" "def \<noteq> JNull" by auto
  from assms(1) t obtain r d where
    r: "check_restart name (''services.'' @ name) def = Some r"
    and d: "check_depends_on serviceNames name (''services.'' @ name) def = Some d"
    and errs: "errs = check_image_or_build name (''services.'' @ name) def @
            check_service_keys name (''services.'' @ name) (object_keys def) @ r @
            check_ports name (''services.'' @ name) (get_prop def ''ports'') @ d @
            check_environment name (''services.'' @ name) def @
            check_volumes root name (''services.'' @ name) (get_prop def ''volumes'')"
    by (rule check_service_parts)
  from assms(2) errs consider
    "e \<in> set (check_image_or_build name (''services.'' @ name) def)"
    | "e \<in> set (check_service_keys name (''services.'' @ name) (object_keys def))"
    | "e \<in> set r"
    | "e \<in> set (check_ports name (''services.'' @ name) (get_prop def ''ports''))"
    | "e \<in> set d"
    | "e \<in> set (check_environment name (''services.'' @ name) def)"
    | "e \<in> set (check_volumes root name (''services.'' @ name) (get_prop def ''volumes''))"
    by auto
  then show ?thesis
  proof cases
    case 1
    then show ?thesis using image by (auto simp: check_image_or_build_def split: if_splits)
  next
    case 2
    then show ?thesis using key by (auto simp: check_service_keys_filter)
  next
    case 3
    from check_restart_diag[OF r 3] t show ?thesis using restart by blast
  next
    case 4
    from check_ports_diag[OF 4] show ?thesis using port by blast
  next
    case 5
    from check_depends_on_diag[OF d 5] show ?thesis using undefined self by blast
  next
    case 6
    then show ?thesis using environment
      by (auto simp: check_environment_def split: if_splits)
  next
    case 7
    from check_volumes_diag[OF 7] show ?thesis using volume by blast
  qed
qed


lemma restart_error_of_service:
  assumes "check_service root serviceNames n d = Some es" "e \<in> set es"
    and "restart_error_of name e"
  shows "n = name"
  using assms(1,2)
proof (cases rule: check_service_diag_cases)
  case (restart r)
  with assms(3) show ?thesis by (auto simp: restart_error_of_def invalid_restart_def)
qed (use assms(3) in \<open>auto simp: restart_error_of_def diagnostic_defs\<close>)

lemma port_warning_of_service:
  assumes "check_service root serviceNames n d = Some es" "e \<in> set es"
    and "port_warning_of name e"
  shows "n = name"
  using assms(1,2)
proof (cases rule: check_service_diag_cases)
  case (port pStr)
  with assms(3) show ?thesis by (auto simp: port_warning_of_def unusual_port_def)
qed (use assms(3) in \<open>auto simp: port_warning_of_def diagnostic_defs\<close>)

lemma dependency_error_of_service:
  assumes "check_service root serviceNames n d = Some es" "e \<in> set es"
    and "dependency_error_of name e"
  shows "n = name"
  using assms(1,2)
proof (cases rule: check_service_diag_cases)
  case (undefined dep)
  with assms(3) show ?thesis by (auto simp: dependency_error_of_def diagnostic_defs)
next
  case self
  with assms(3) show ?thesis by (auto simp: dependency_error_of_def diagnostic_defs)
next
  case not_mapping
  with assms(3) show ?thesis by (auto simp: dependency_error_of_def diagnostic_defs)
next
  case image
  with assms(3) show ?thesis by (auto simp: dependency_error_of_def diagnostic_defs)
qed (use assms(3) in \<open>auto simp: dependency_error_of_def diagnostic_defs\<close>)

lemma check_services_member:
  assumes "check_services root serviceNames entries = Some se" "e \<in> set se"
  obtains n d es where "(n, d) \<in> set entries"
    "check_service root serviceNames n d = Some es" "e \<in> set es"
  using assms
proof (induction entries arbitrary: se thesis)
  case Nil
  then show ?case by simp
next
  case (Cons entry entries)
  obtain n d where entry: "entry = (n, d)" by (cases entry)
  from Cons.prems(2) entry obtain es rest where
    es: "check_service root serviceNames n d = Some es"
    and rest: "check_services root serviceNames entries = Some rest"
    and se: "se = es @ rest"
    by (auto split: option.splits)
  from Cons.prems(3) se consider "e \<in> set es" | "e \<in> set rest" by auto
  then show ?case
  proof cases
    case 1
    with Cons.prems(1)[of n d es] es entry show ?thesis by simp
  next
    case 2
    show ?thesis
    proof (rule Cons.IH[OF _ rest 2])
      fix n' d' es'
      assume "(n', d') \<in> set entries" "check_service root serviceNames n' d' = Some es'"
        "e \<in> set es'"
      with Cons.prems(1)[of n' d' es'] show thesis by simp
    qed
  qed
qed

lemma check_services_filter_none:
  assumes "check_services root serviceNames entries = Some se"
    and "name \<notin> fst ` set entries"
    and local: "\<And>n d es e. check_service root serviceNames n d = Some es \<Longrightarrow> e \<in> set es \<Longrightarrow>
                  P e \<Longrightarrow> n = name"
  shows "filter P se = []"
proof -
  have "\<not> P e" if "e \<in> set se" for e
  proof
    assume "P e"
    from assms(1) that obtain n d es where "(n, d) \<in> set entries"
      "check_service root serviceNames n d = Some es" "e \<in> set es"
      by (rule check_services_member)
    with local[OF this(2,3) \<open>P e\<close>] assms(2) show False by force
  qed
  then show ?thesis by (simp add: filter_empty_conv)
qed

lemma check_services_filter:
  assumes "check_services root serviceNames entries = Some se"
    and "distinct (map fst entries)" and "(name, def) \<in> set entries"
    and local: "\<And>n d es e. check_service root serviceNames n d = Some es \<Longrightarrow> e \<in> set es \<Longrightarrow>
                  P e \<Longrightarrow> n = name"
  shows "\<exists>es. check_service root serviceNames name def = Some es \<and>
           filter P se = filter P es"
  using assms(1,2,3)
proof (induction entries arbitrary: se)
  case Nil
  then show ?case by simp
next
  case (Cons entry entries)
  obtain n d where entry: "entry = (n, d)" by (cases entry)
  from Cons.prems(1) entry obtain es rest where
    es: "check_service root serviceNames n d = Some es"
    and rest: "check_services root serviceNames entries = Some rest"
    and se: "se = es @ rest"
    by (auto split: option.splits)
  from Cons.prems(2) entry have dist: "n \<notin> fst ` set entries" "distinct (map fst entries)"
    by simp_all
  show ?case
  proof (cases "n = name")
    case True
    with dist(1) have "(name, def) \<notin> set entries" by (metis fst_conv image_eqI)
    with Cons.prems(3) entry have "d = def" by simp
    from True dist(1) have notin: "name \<notin> fst ` set entries" by simp
    have "filter P rest = []"
    proof (rule check_services_filter_none[OF rest notin])
      fix n d es e
      assume "check_service root serviceNames n d = Some es" "e \<in> set es" "P e"
      then show "n = name" by (rule local)
    qed
    with se have "filter P se = filter P es" by simp
    moreover from es True \<open>d = def\<close> have "check_service root serviceNames name def = Some es"
      by simp
    ultimately show ?thesis by blast
  next
    case False
    have "\<not> P e" if "e \<in> set es" for e
      using local[OF es that] False by blast
    then have none: "filter P es = []" by (simp add: filter_empty_conv)
    from Cons.prems(3) entry False have mem: "(name, def) \<in> set entries" by simp
    from Cons.IH[OF rest dist(2) mem]
    obtain es' where es': "check_service root serviceNames name def = Some es'"
      "filter P rest = filter P es'"
      by blast
    from se none es'(2) have "filter P se = filter P es'" by simp
    with es'(1) show ?thesis by blast
  qed
qed

lemma validate_cases:
  assumes "validate doc = Some errs"
  obtains (root) "js_typeof doc \<noteq> TObject \<or> doc = JNull \<or> isArray doc"
      "errs = [root_shape_error]"
  | (missing) "js_typeof doc = TObject" "doc \<noteq> JNull" "\<not> isArray doc"
      "\<not> truthy (get_prop doc ''services'')"
      "errs = check_top_level_keys (object_keys doc) @ check_version doc @ [missing_services]"
  | (shape) "js_typeof doc = TObject" "doc \<noteq> JNull" "\<not> isArray doc"
      "truthy (get_prop doc ''services'')"
      "js_typeof (get_prop doc ''services'') \<noteq> TObject \<or> get_prop doc ''services'' = JNull"
      "errs = check_top_level_keys (object_keys doc) @ check_version doc @
              [services_shape_error]"
  | (checked) serviceErrors st where "js_typeof doc = TObject" "doc \<noteq> JNull" "\<not> isArray doc"
      "truthy (get_prop doc ''services'')"
      "js_typeof (get_prop doc ''services'') = TObject" "get_prop doc ''services'' \<noteq> JNull"
      "check_services doc (object_keys (get_prop doc ''services''))
         (object_entries (get_prop doc ''services'')) = Some serviceErrors"
      "check_cycles (get_prop doc ''services'') (object_keys (get_prop doc ''services''))
         (object_keys (get_prop doc ''services''))
         \<lparr>visited = {}, inStack = {},
          errors = check_top_level_keys (object_keys doc) @ check_version doc @
                   serviceErrors\<rparr> = Some st"
      "errs = errors st"
proof (cases "js_typeof doc \<noteq> TObject \<or> doc = JNull \<or> isArray doc")
  case True
  with assms have "errs = [root_shape_error]" by (simp add: validate_def)
  with True show ?thesis by (rule root)
next
  case False
  then have d: "js_typeof doc = TObject" "doc \<noteq> JNull" "\<not> isArray doc" by auto
  show ?thesis
  proof (cases "truthy (get_prop doc ''services'')")
    case False
    with assms d
    have "errs = check_top_level_keys (object_keys doc) @ check_version doc @ [missing_services]"
      by (simp add: validate_def)
    with d False show ?thesis by (rule missing)
  next
    case t: True
    show ?thesis
    proof (cases "js_typeof (get_prop doc ''services'') \<noteq> TObject \<or>
        get_prop doc ''services'' = JNull")
      case True
      with assms d t
      have "errs = check_top_level_keys (object_keys doc) @ check_version doc @
              [services_shape_error]"
        by (simp add: validate_def)
      with d t True show ?thesis by (rule shape)
    next
      case False
      then have s: "js_typeof (get_prop doc ''services'') = TObject"
        "get_prop doc ''services'' \<noteq> JNull" by auto
      from assms d t s obtain serviceErrors where
        se: "check_services doc (object_keys (get_prop doc ''services''))
               (object_entries (get_prop doc ''services'')) = Some serviceErrors"
        by (simp add: validate_def split: option.splits)
      from assms d t s se obtain st where
        "check_cycles (get_prop doc ''services'') (object_keys (get_prop doc ''services''))
           (object_keys (get_prop doc ''services''))
           \<lparr>visited = {}, inStack = {},
            errors = check_top_level_keys (object_keys doc) @ check_version doc @
                     serviceErrors\<rparr> = Some st" "errs = errors st"
        by (simp add: validate_def split: option.splits)
      with d t s se show ?thesis by (rule checked)
    qed
  qed
qed

subsection \<open>The diagnostics of \<^verbatim>\<open>validate\<close>\<close>

text \<open>
  What \<^verbatim>\<open>validate\<close> returns for a document with services: the top-level warnings, the
  diagnostics of the services in their order, then the circular-dependency diagnostics.
  The diagnostics of one kind for one service are found by filtering.
\<close>

lemma object_entries_nonempty:
  assumes "(name, def) \<in> set (object_entries v)"
  shows "truthy v \<and> js_typeof v = TObject \<and> v \<noteq> JNull"
  using assms by (cases v) auto

lemma filter_cycle_errors:
  assumes "\<And>n d. \<not> P (circular_dependency n d)"
  shows "filter P (cycle_errors edges) = []"
  using assms by (auto simp: cycle_errors_def filter_empty_conv)

lemma filter_top_level:
  assumes "\<And>key. \<not> P (unknown_top_level_key key)" "\<not> P version_obsolete"
  shows "filter P (check_top_level_keys keys @ check_version doc) = []"
  using assms by (auto simp: check_top_level_keys_filter check_version_def filter_empty_conv)

lemma validate_checked_errors:
  assumes "validate doc = Some errs"
    and "truthy (get_prop doc ''services'')"
    and "js_typeof (get_prop doc ''services'') = TObject"
    and "js_typeof doc = TObject" "doc \<noteq> JNull" "\<not> isArray doc"
  obtains serviceErrors st edges where
    "check_services doc (object_keys (get_prop doc ''services''))
       (object_entries (get_prop doc ''services'')) = Some serviceErrors"
    "check_cycles (get_prop doc ''services'') (object_keys (get_prop doc ''services''))
       (object_keys (get_prop doc ''services''))
       \<lparr>visited = {}, inStack = {},
        errors = check_top_level_keys (object_keys doc) @ check_version doc @
                 serviceErrors\<rparr> = Some st"
    "errs = check_top_level_keys (object_keys doc) @ check_version doc @ serviceErrors @
            cycle_errors edges"
    "errors st = errs"
    "distinct (map fst edges)"
    "set (map fst edges) \<subseteq> set (object_keys (get_prop doc ''services''))"
    "\<forall>(n, d) \<in> set edges.
       dependency_edge (get_prop doc ''services'') (object_keys (get_prop doc ''services'')) n d"
  using assms(1)
proof (cases rule: validate_cases)
  case root
  with assms show ?thesis by simp
next
  case missing
  with assms show ?thesis by simp
next
  case shape
  with assms show ?thesis by (cases "get_prop doc ''services''") auto
next
  case (checked serviceErrors st)
  from check_cycles_errors[OF checked(8)]
  obtain edges where e: "errors st = (check_top_level_keys (object_keys doc) @
      check_version doc @ serviceErrors) @ cycle_errors edges" "distinct (map fst edges)"
    "set (map fst edges) \<subseteq> visited st"
    "\<forall>(n, d) \<in> set edges.
       dependency_edge (get_prop doc ''services'') (object_keys (get_prop doc ''services'')) n d"
    and v: "visited st \<subseteq> set (object_keys (get_prop doc ''services''))"
    by auto
  from e(3) v have "set (map fst edges) \<subseteq> set (object_keys (get_prop doc ''services''))"
    by blast
  with checked e show ?thesis by (intro that[of serviceErrors st edges]) simp_all
qed

lemma validate_service_filter:
  assumes "validate doc = Some errs"
    and "js_typeof doc = TObject" "doc \<noteq> JNull" "\<not> isArray doc"
    and "(name, def) \<in> set (object_entries (get_prop doc ''services''))"
    and "distinct (object_keys (get_prop doc ''services''))"
    and top: "\<And>key. \<not> P (unknown_top_level_key key)" "\<not> P version_obsolete"
    and cyc: "\<And>n d. \<not> P (circular_dependency n d)"
    and local: "\<And>n d es e. check_service doc (object_keys (get_prop doc ''services'')) n d
                    = Some es \<Longrightarrow> e \<in> set es \<Longrightarrow> P e \<Longrightarrow> n = name"
  shows "\<exists>es. check_service doc (object_keys (get_prop doc ''services'')) name def = Some es \<and>
           filter P errs = filter P es"
proof -
  from object_entries_nonempty[OF assms(5)]
  have s: "truthy (get_prop doc ''services'')" "js_typeof (get_prop doc ''services'') = TObject"
    by auto
  from assms(1) s assms(2,3,4) obtain serviceErrors and st :: cycle_state and edges where
    se: "check_services doc (object_keys (get_prop doc ''services''))
       (object_entries (get_prop doc ''services'')) = Some serviceErrors"
    and errs: "errs = check_top_level_keys (object_keys doc) @ check_version doc @
       serviceErrors @ cycle_errors edges"
    by (rule validate_checked_errors)
  from filter_top_level[of P, OF top] filter_cycle_errors[of P, OF cyc] errs
  have "filter P errs = filter P serviceErrors"
    by (simp del: append_assoc add: append_assoc[symmetric])
  moreover from assms(6) have "distinct (map fst (object_entries (get_prop doc ''services'')))"
    by (simp add: object_keys_def)
  then have "\<exists>es. check_service doc (object_keys (get_prop doc ''services'')) name def = Some es \<and>
      filter P serviceErrors = filter P es"
  proof (rule check_services_filter[OF se _ assms(5)])
    fix n d es e
    assume "check_service doc (object_keys (get_prop doc ''services'')) n d = Some es"
      "e \<in> set es" "P e"
    then show "n = name" by (rule local)
  qed
  ultimately show ?thesis by auto
qed


lemma filter_all: "(\<And>x. x \<in> set xs \<Longrightarrow> P x) \<Longrightarrow> filter P xs = xs"
  by (simp add: filter_id_conv)

lemma filter_none: "(\<And>x. x \<in> set xs \<Longrightarrow> \<not> P x) \<Longrightarrow> filter P xs = []"
  by (simp add: filter_empty_conv)

lemma check_image_or_build_diag:
  "e \<in> set (check_image_or_build name svcPath svc) \<Longrightarrow> e = missing_image_or_build name svcPath"
  by (auto simp: check_image_or_build_def split: if_splits)

lemma check_service_keys_diag:
  "e \<in> set (check_service_keys name svcPath keys) \<Longrightarrow>
     \<exists>key. e = unknown_service_key name svcPath key"
  by (auto simp: check_service_keys_filter)

lemma check_environment_diag:
  "e \<in> set (check_environment name svcPath svc) \<Longrightarrow> e = environment_shape name svcPath"
  by (auto simp: check_environment_def split: if_splits)

lemma service_filter_restart:
  assumes "check_service root serviceNames name def = Some es"
    and "js_typeof def = TObject" "def \<noteq> JNull"
  shows "check_restart name (''services.'' @ name) def =
           Some (filter (restart_error_of name) es)"
proof -
  let ?p = "''services.'' @ name" and ?P = "restart_error_of name"
  from assms obtain r d where
    r: "check_restart name ?p def = Some r"
    and d: "check_depends_on serviceNames name ?p def = Some d"
    and es: "es = check_image_or_build name ?p def @
            check_service_keys name ?p (object_keys def) @ r @
            check_ports name ?p (get_prop def ''ports'') @ d @
            check_environment name ?p def @
            check_volumes root name ?p (get_prop def ''volumes'')"
    by (rule check_service_parts)
  have 1: "filter ?P (check_image_or_build name ?p def) = []"
    by (rule filter_none)
      (auto dest!: check_image_or_build_diag simp: restart_error_of_def diagnostic_defs)
  have 2: "filter ?P (check_service_keys name ?p (object_keys def)) = []"
    by (rule filter_none)
      (auto dest!: check_service_keys_diag simp: restart_error_of_def diagnostic_defs)
  have 3: "filter ?P r = r"
    by (rule filter_all) (auto dest!: check_restart_diag[OF r] simp: restart_error_of_def)
  have 4: "filter ?P (check_ports name ?p (get_prop def ''ports'')) = []"
    by (rule filter_none)
      (auto dest!: check_ports_diag simp: restart_error_of_def diagnostic_defs)
  have 5: "filter ?P d = []"
    by (rule filter_none)
      (auto dest!: check_depends_on_diag[OF d] simp: restart_error_of_def diagnostic_defs)
  have 6: "filter ?P (check_environment name ?p def) = []"
    by (rule filter_none)
      (auto dest!: check_environment_diag simp: restart_error_of_def diagnostic_defs)
  have 7: "filter ?P (check_volumes root name ?p (get_prop def ''volumes'')) = []"
    by (rule filter_none)
      (auto dest!: check_volumes_diag simp: restart_error_of_def diagnostic_defs)
  from es 1 2 3 4 5 6 7 have "filter ?P es = r" by simp
  with r show ?thesis by simp
qed

lemma restart_error_of_not_others:
  "\<not> restart_error_of name (unknown_top_level_key key)"
  "\<not> restart_error_of name version_obsolete"
  "\<not> restart_error_of name (circular_dependency n d)"
  by (auto simp: restart_error_of_def diagnostic_defs)

lemma check_port_offending:
  "check_port name svcPath port =
     (if offending_port port then [unusual_port name svcPath (port_text port)] else [])"
  by (cases port) simp_all

lemma check_port_list_offending:
  "check_port_list name svcPath ports =
     map (\<lambda>port. unusual_port name svcPath (port_text port)) (filter offending_port ports)"
  by (induction ports) (simp_all add: check_port_offending)

lemma offending_port_String:
  "offending_port port \<Longrightarrow>
     (js_typeof port = TString \<or> js_typeof port = TNumber) \<and>
     js_String port = Some (port_text port) \<and> \<not> port_ok (port_text port)"
  by (cases port) simp_all

lemma port_ok_examples:
  "port_ok ''8080:80''" "\<not> port_ok ''abc:80''" "port_ok ''808080''"
  by code_simp+

lemma service_filter_ports:
  assumes "check_service root serviceNames name def = Some es"
    and "js_typeof def = TObject" "def \<noteq> JNull"
  shows "filter (port_warning_of name) es =
           check_ports name (''services.'' @ name) (get_prop def ''ports'')"
proof -
  let ?p = "''services.'' @ name" and ?P = "port_warning_of name"
  from assms obtain r d where
    r: "check_restart name ?p def = Some r"
    and d: "check_depends_on serviceNames name ?p def = Some d"
    and es: "es = check_image_or_build name ?p def @
            check_service_keys name ?p (object_keys def) @ r @
            check_ports name ?p (get_prop def ''ports'') @ d @
            check_environment name ?p def @
            check_volumes root name ?p (get_prop def ''volumes'')"
    by (rule check_service_parts)
  have 1: "filter ?P (check_image_or_build name ?p def) = []"
    by (rule filter_none)
      (auto dest!: check_image_or_build_diag simp: port_warning_of_def diagnostic_defs)
  have 2: "filter ?P (check_service_keys name ?p (object_keys def)) = []"
    by (rule filter_none)
      (auto dest!: check_service_keys_diag simp: port_warning_of_def diagnostic_defs)
  have 3: "filter ?P r = []"
    by (rule filter_none)
      (auto dest!: check_restart_diag[OF r] simp: port_warning_of_def diagnostic_defs)
  have 4: "filter ?P (check_ports name ?p (get_prop def ''ports'')) =
      check_ports name ?p (get_prop def ''ports'')"
    by (rule filter_all) (auto dest!: check_ports_diag simp: port_warning_of_def)
  have 5: "filter ?P d = []"
    by (rule filter_none)
      (auto dest!: check_depends_on_diag[OF d] simp: port_warning_of_def diagnostic_defs)
  have 6: "filter ?P (check_environment name ?p def) = []"
    by (rule filter_none)
      (auto dest!: check_environment_diag simp: port_warning_of_def diagnostic_defs)
  have 7: "filter ?P (check_volumes root name ?p (get_prop def ''volumes'')) = []"
    by (rule filter_none)
      (auto dest!: check_volumes_diag simp: port_warning_of_def diagnostic_defs)
  from es 1 2 3 4 5 6 7 show ?thesis by simp
qed

lemma port_warning_of_not_others:
  "\<not> port_warning_of name (unknown_top_level_key key)"
  "\<not> port_warning_of name version_obsolete"
  "\<not> port_warning_of name (circular_dependency n d)"
  by (auto simp: port_warning_of_def diagnostic_defs)

lemma service_filter_depends_on:
  assumes "check_service root serviceNames name def = Some es"
    and "js_typeof def = TObject" "def \<noteq> JNull"
  shows "check_depends_on serviceNames name (''services.'' @ name) def =
           Some (filter (dependency_error_of name) es)"
proof -
  let ?p = "''services.'' @ name" and ?P = "dependency_error_of name"
  from assms obtain r d where
    r: "check_restart name ?p def = Some r"
    and d: "check_depends_on serviceNames name ?p def = Some d"
    and es: "es = check_image_or_build name ?p def @
            check_service_keys name ?p (object_keys def) @ r @
            check_ports name ?p (get_prop def ''ports'') @ d @
            check_environment name ?p def @
            check_volumes root name ?p (get_prop def ''volumes'')"
    by (rule check_service_parts)
  have 1: "filter ?P (check_image_or_build name ?p def) = []"
    by (rule filter_none)
      (auto dest!: check_image_or_build_diag simp: dependency_error_of_def diagnostic_defs)
  have 2: "filter ?P (check_service_keys name ?p (object_keys def)) = []"
    by (rule filter_none)
      (auto dest!: check_service_keys_diag simp: dependency_error_of_def diagnostic_defs)
  have 3: "filter ?P r = []"
    by (rule filter_none)
      (auto dest!: check_restart_diag[OF r] simp: dependency_error_of_def diagnostic_defs)
  have 4: "filter ?P (check_ports name ?p (get_prop def ''ports'')) = []"
    by (rule filter_none)
      (auto dest!: check_ports_diag simp: dependency_error_of_def diagnostic_defs)
  have 5: "filter ?P d = d"
    by (rule filter_all) (auto dest!: check_depends_on_diag[OF d] simp: dependency_error_of_def)
  have 6: "filter ?P (check_environment name ?p def) = []"
    by (rule filter_none)
      (auto dest!: check_environment_diag simp: dependency_error_of_def diagnostic_defs)
  have 7: "filter ?P (check_volumes root name ?p (get_prop def ''volumes'')) = []"
    by (rule filter_none)
      (auto dest!: check_volumes_diag simp: dependency_error_of_def diagnostic_defs)
  from es 1 2 3 4 5 6 7 have "filter ?P es = d" by simp
  with d show ?thesis by simp
qed

lemma dependency_error_of_not_others:
  "\<not> dependency_error_of name (unknown_top_level_key key)"
  "\<not> dependency_error_of name version_obsolete"
  "\<not> dependency_error_of name (circular_dependency n d)"
  by (auto simp: dependency_error_of_def diagnostic_defs)

lemma check_deps_defined:
  assumes "name \<in> set serviceNames"
  shows "check_deps serviceNames name svcPath deps =
     concat (map (\<lambda>dep. if dep = name then [self_dependency name svcPath]
                         else if dep \<in> set serviceNames then []
                         else [undefined_dependency name svcPath dep]) deps)"
  using assms by (induction deps) auto

lemma undefined_dependency_inject:
  "undefined_dependency name svcPath dep = undefined_dependency name svcPath dep' \<longleftrightarrow>
     dep = dep'"
  by (auto simp: undefined_dependency_def quoted_def)

lemma undefined_not_self:
  "undefined_dependency name svcPath dep \<noteq> self_dependency name svcPath"
  by (simp add: undefined_dependency_def self_dependency_def quoted_def)

lemma hasCycle_seen:
  "node \<in> visited st \<Longrightarrow> node \<notin> inStack st \<Longrightarrow>
     hasCycle services serviceNames node st = Some (False, st)"
  by (simp add: hasCycle.simps)

lemma hasCycle_on_stack:
  "node \<in> inStack st \<Longrightarrow> hasCycle services serviceNames node st = Some (True, st)"
  by (simp add: hasCycle.simps)

lemma check_service_not_circular:
  assumes "check_service root serviceNames name def = Some es" "e \<in> set es"
  shows "e \<noteq> circular_dependency n d"
  using assms by (cases rule: check_service_diag_cases) (auto simp: diagnostic_defs)

lemma check_services_not_circular:
  assumes "check_services root serviceNames entries = Some se" "e \<in> set se"
  shows "e \<noteq> circular_dependency n d"
proof -
  from assms obtain n' d' es where "check_service root serviceNames n' d' = Some es" "e \<in> set es"
    by (rule check_services_member)
  then show ?thesis by (rule check_service_not_circular)
qed

lemma top_level_not_circular:
  "e \<in> set (check_top_level_keys keys @ check_version doc) \<Longrightarrow> e \<noteq> circular_dependency n d"
  by (auto simp: check_top_level_keys_filter check_version_def diagnostic_defs split: if_splits)

lemma validate_errors_split:
  assumes "validate doc = Some errs"
  shows "\<exists>others edges. errs = others @ cycle_errors edges \<and>
     (\<forall>e\<in>set others. \<forall>n d. e \<noteq> circular_dependency n d) \<and>
     distinct (map fst edges) \<and>
     set (map fst edges) \<subseteq> set (object_keys (get_prop doc ''services'')) \<and>
     (\<forall>(n, d) \<in> set edges.
        dependency_edge (get_prop doc ''services'') (object_keys (get_prop doc ''services'')) n d)"
  using assms
proof (cases rule: validate_cases)
  case root
  then show ?thesis
    by (intro exI[of _ errs] exI[of _ "[]"]) (auto simp: diagnostic_defs)
next
  case missing
  have "\<forall>e\<in>set errs. \<forall>n d. e \<noteq> circular_dependency n d"
    unfolding missing(5) using top_level_not_circular[of _ "object_keys doc" doc]
    by (auto simp: missing_services_def circular_dependency_def)
  then show ?thesis by (intro exI[of _ errs] exI[of _ "[]"]) simp
next
  case shape
  have "\<forall>e\<in>set errs. \<forall>n d. e \<noteq> circular_dependency n d"
    unfolding shape(6) using top_level_not_circular[of _ "object_keys doc" doc]
    by (auto simp: services_shape_error_def circular_dependency_def quoted_def)
  then show ?thesis by (intro exI[of _ errs] exI[of _ "[]"]) simp
next
  case (checked serviceErrors st)
  let ?others = "check_top_level_keys (object_keys doc) @ check_version doc @ serviceErrors"
  from assms checked(4,5,1,2,3) obtain se' and st' :: cycle_state and edges where
    se': "check_services doc (object_keys (get_prop doc ''services''))
       (object_entries (get_prop doc ''services'')) = Some se'"
    and errs: "errs = check_top_level_keys (object_keys doc) @ check_version doc @ se' @
            cycle_errors edges"
    and edges: "distinct (map fst edges)"
      "set (map fst edges) \<subseteq> set (object_keys (get_prop doc ''services''))"
      "\<forall>(n, d) \<in> set edges.
         dependency_edge (get_prop doc ''services'') (object_keys (get_prop doc ''services'')) n d"
    by (rule validate_checked_errors)
  from se' checked(7) have "se' = serviceErrors" by simp
  with errs have e: "errs = ?others @ cycle_errors edges" by simp
  have "\<forall>e\<in>set ?others. \<forall>n d. e \<noteq> circular_dependency n d"
  proof (intro ballI allI)
    fix e n d
    assume "e \<in> set ?others"
    then consider "e \<in> set (check_top_level_keys (object_keys doc) @ check_version doc)"
      | "e \<in> set serviceErrors" by auto
    then show "e \<noteq> circular_dependency n d"
    proof cases
      case 1
      then show ?thesis by (rule top_level_not_circular)
    next
      case 2
      with checked(7) show ?thesis by (rule check_services_not_circular)
    qed
  qed
  with e edges show ?thesis by (intro exI[of _ ?others] exI[of _ edges]) simp
qed

lemma validate_reports_cycle_iff:
  assumes "validate doc = Some errs"
    and "truthy (get_prop doc ''services'')"
    and "js_typeof (get_prop doc ''services'') = TObject"
    and "js_typeof doc = TObject" "doc \<noteq> JNull" "\<not> isArray doc"
  shows "(\<exists>n d. circular_dependency n d \<in> set errs) \<longleftrightarrow>
         (\<exists>x. (x, x) \<in> (dependency_graph (get_prop doc ''services'')
                           (object_keys (get_prop doc ''services'')))\<^sup>+)"
proof -
  let ?services = "get_prop doc ''services''"
  let ?names = "object_keys ?services"
  let ?top = "check_top_level_keys (object_keys doc) @ check_version doc"
  from assms obtain se st edges where
    se: "check_services doc ?names (object_entries ?services) = Some se"
    and run0: "check_cycles ?services ?names ?names
       \<lparr>visited = {}, inStack = {},
        errors = check_top_level_keys (object_keys doc) @ check_version doc @ se\<rparr> = Some st"
    and errs: "errs = check_top_level_keys (object_keys doc) @ check_version doc @ se @
        cycle_errors edges"
    and st: "errors st = errs"
    by (rule validate_checked_errors)
  have others: "e \<noteq> circular_dependency n d" if "e \<in> set (?top @ se)" for e n d
  proof -
    from that consider "e \<in> set ?top" | "e \<in> set se" by auto
    then show ?thesis
    proof cases
      case 1
      then show ?thesis by (rule top_level_not_circular)
    next
      case 2
      with se show ?thesis by (rule check_services_not_circular)
    qed
  qed
  from errs have split: "errs = (?top @ se) @ cycle_errors edges" by simp
  from run0 have run: "check_cycles ?services ?names ?names
       \<lparr>visited = {}, inStack = {}, errors = ?top @ se\<rparr> = Some st" by simp
  have "(\<exists>n d. circular_dependency n d \<in> set errs) \<longleftrightarrow> edges \<noteq> []"
  proof
    assume "\<exists>n d. circular_dependency n d \<in> set errs"
    then obtain n d where "circular_dependency n d \<in> set errs" by blast
    with split others have "circular_dependency n d \<in> set (cycle_errors edges)" by auto
    then show "edges \<noteq> []" by auto
  next
    assume "edges \<noteq> []"
    then obtain n d rest where "edges = (n, d) # rest" by (cases edges) auto
    with split have "circular_dependency n d \<in> set errs" by (simp add: cycle_errors_def)
    then show "\<exists>n d. circular_dependency n d \<in> set errs" by blast
  qed
  moreover have "edges \<noteq> [] \<longleftrightarrow> errors st \<noteq> ?top @ se"
    unfolding st split by (simp add: cycle_errors_def)
  moreover note check_cycles_reports_iff[OF run]
  ultimately show ?thesis by simp
qed

lemma trancl_rank:
  fixes rank :: "'a \<Rightarrow> nat"
  assumes "\<And>x y. (x, y) \<in> G \<Longrightarrow> rank y < rank x"
  shows "(x, x) \<notin> G\<^sup>+"
proof
  assume "(x, x) \<in> G\<^sup>+"
  moreover have "rank y < rank x" if "(x, y) \<in> G\<^sup>+" for x y
    using that by (induction rule: trancl_induct) (use assms in \<open>force+\<close>)
  ultimately show False by blast
qed

subsection \<open>The root of the document\<close>

text \<open>
  C3, as the specification states it: called with \<^verbatim>\<open>null\<close> or \<^verbatim>\<open>undefined\<close>, \<^verbatim>\<open>validate\<close>
  returns the missing-services diagnostic that a mapping without \<^verbatim>\<open>services\<close> gets. It
  does not: the first guard of \<^verbatim>\<open>validate\<close> tests \<^verbatim>\<open>doc === null\<close> and
  \<^verbatim>\<open>typeof doc !== 'object'\<close>, so both values get the diagnostic of a root that is not a
  mapping, while the empty mapping gets the missing-services diagnostic.
\<close>

theorem validate_null_not_missing_services:
  "validate JNull \<noteq> Some [missing_services] \<and>
   validate JUndefined \<noteq> Some [missing_services] \<and>
   validate (JObj []) = Some [missing_services]"
  by (simp add: validate_def get_prop_def object_keys_def check_version_def
      root_shape_error_def missing_services_def)

text \<open>
  C3, amended: called with \<^verbatim>\<open>null\<close> or \<^verbatim>\<open>undefined\<close>, \<^verbatim>\<open>validate\<close> does not throw; it returns
  exactly one diagnostic, the error "Document must be a YAML mapping (object)." without a
  path, which is the diagnostic of every root that is not a mapping.
\<close>

theorem validate_null_root_shape:
  "validate JNull = Some [root_shape_error] \<and>
   validate JUndefined = Some [root_shape_error] \<and>
   severity root_shape_error = SevError \<and>
   message root_shape_error = ''Document must be a YAML mapping (object).'' \<and>
   path root_shape_error = None"
  by (simp add: validate_def root_shape_error_def)

theorem validate_null_root_shape_witness:
  "validate JNull = Some [root_shape_error] \<and> root_shape_error \<noteq> missing_services"
  using validate_null_root_shape
  by (simp add: root_shape_error_def missing_services_def)

subsection \<open>The shape of \<^verbatim>\<open>services\<close>\<close>

text \<open>
  A \<^verbatim>\<open>services\<close> value that is truthy and not an object (a non-empty string, a number
  other than 0 and NaN, \<^verbatim>\<open>true\<close>) gets the services-shape error and nothing after it. A
  sequence never gets it.
\<close>

lemma validate_services_scalar:
  assumes "truthy (get_prop (JObj root) ''services'')"
    and "js_typeof (get_prop (JObj root) ''services'') \<noteq> TObject"
  shows "validate (JObj root) =
     Some (check_top_level_keys (object_keys (JObj root)) @ check_version (JObj root) @
           [services_shape_error])"
  using assms by (simp add: validate_def)

lemma validate_sequence_no_shape_error:
  assumes "validate (JObj root) = Some errs"
    and "get_prop (JObj root) ''services'' = JArr xs"
  shows "services_shape_error \<notin> set errs"
proof
  assume in_errs: "services_shape_error \<in> set errs"
  from assms obtain se and st :: cycle_state and edges where
    se: "check_services (JObj root) (object_keys (JArr xs)) (object_entries (JArr xs)) = Some se"
    and errs: "errs = check_top_level_keys (object_keys (JObj root)) @
        check_version (JObj root) @ se @ cycle_errors edges"
    by (auto elim!: validate_checked_errors)
  from in_errs errs consider
    "services_shape_error \<in> set (check_top_level_keys (object_keys (JObj root)) @
        check_version (JObj root))"
    | "services_shape_error \<in> set se"
    | "services_shape_error \<in> set (cycle_errors edges)" by auto
  then show False
  proof cases
    case 1
    then show False
      by (auto simp: check_top_level_keys_filter check_version_def diagnostic_defs
          split: if_splits)
  next
    case 2
    with se obtain n d es where "check_service (JObj root) (object_keys (JArr xs)) n d = Some es"
      "services_shape_error \<in> set es" by (rule check_services_member)
    then show False
      by (cases rule: check_service_diag_cases) (auto simp: diagnostic_defs)
  next
    case 3
    then show False by (auto simp: cycle_errors_def diagnostic_defs)
  qed
qed

text \<open>
  C4 says that a \<^verbatim>\<open>services\<close> value that is present and truthy but not a mapping, a
  sequence for example, gets exactly one services-shape error and nothing else. The
  guard is \<^verbatim>\<open>typeof root.services !== 'object' || root.services === null\<close>, without the
  \<^verbatim>\<open>Array.isArray\<close> test that the guard on the root has, and a sequence passes it: its
  indices are then taken for service names. The document
  \<^verbatim>\<open>{services: [{image: "nginx"}]}\<close> gets no diagnostic at all, and
  \<^verbatim>\<open>{services: ["web"]}\<close> gets a per-service diagnostic for the service "0".
\<close>

theorem validate_services_sequence:
  "validate (JObj [(''services'', JArr [JObj [(''image'', JStr ''nginx'')]])]) = Some [] \<and>
   validate (JObj [(''services'', JArr [JStr ''web''])]) =
     Some [service_not_mapping ''0'' ''services.0'']"
  by code_simp

theorem validate_services_sequence_witness:
  "validate (JObj [(''services'', JArr [JObj [(''image'', JStr ''nginx'')]])]) \<noteq>
     Some [services_shape_error]"
  using validate_services_sequence by simp

subsection \<open>Exceptions\<close>

text \<open>
  The conversions with \<^verbatim>\<open>String\<close> are the only statements of \<^verbatim>\<open>validate\<close> that can throw:
  on a document in which no mapping has a key \<^verbatim>\<open>toString\<close>, \<^verbatim>\<open>validate\<close> returns its list
  of diagnostics.
\<close>

lemma no_toString_entries_keys:
  "no_toString_entries kvs \<Longrightarrow> ''toString'' \<notin> set (map fst kvs)"
  by (induction kvs) force+

lemma no_toString_String:
  "no_toString v \<Longrightarrow> \<exists>s. js_String v = Some s"
  "no_toString_list xs \<Longrightarrow> \<exists>s. js_join xs = Some s"
proof (induction v and xs rule: js_String_js_join.induct)
  case (7 kvs)
  then show ?case using no_toString_entries_keys[of kvs] by simp
next
  case (9 x xs)
  then show ?case by (cases "x = JUndefined \<or> x = JNull") auto
qed simp_all

lemma no_toString_map_String:
  "no_toString_list xs \<Longrightarrow> \<exists>ss. map_String xs = Some ss"
proof (induction xs)
  case Nil
  then show ?case by simp
next
  case (Cons x xs)
  then obtain s ss where "js_String x = Some s" "map_String xs = Some ss"
    using no_toString_String(1)[of x] by auto
  then show ?case by simp
qed

lemma no_toString_deps_of: "no_toString v \<Longrightarrow> \<exists>deps. deps_of v = Some deps"
  by (cases v) (simp_all add: no_toString_map_String)

lemma no_toString_list_nth:
  "no_toString_list xs \<Longrightarrow> x \<in> set xs \<Longrightarrow> no_toString x"
  by (induction xs) auto

lemma no_toString_entries_snd:
  "no_toString_entries kvs \<Longrightarrow> (k, v) \<in> set kvs \<Longrightarrow> no_toString v"
  by (induction kvs) auto

lemma no_toString_object_entries:
  assumes "no_toString v" "(k, x) \<in> set (object_entries v)"
  shows "no_toString x"
proof (cases v)
  case (JArr xs)
  with assms(2) have "x \<in> set xs" by (auto dest: set_zip_rightD)
  with assms(1) JArr show ?thesis by (simp add: no_toString_list_nth)
next
  case (JObj kvs)
  with assms show ?thesis by (simp add: no_toString_entries_snd)
qed (use assms in auto)

lemma no_toString_get_prop: "no_toString v \<Longrightarrow> no_toString (get_prop v k)"
  by (auto simp: get_prop_def split: option.splits
      dest: map_of_SomeD no_toString_object_entries)

lemma no_toString_check_service:
  assumes "no_toString def"
  shows "\<exists>errs. check_service root serviceNames name def = Some errs"
proof -
  from assms obtain s where "js_String (get_prop def ''restart'') = Some s"
    using no_toString_String(1) no_toString_get_prop by blast
  moreover from assms obtain deps where "deps_of (get_prop def ''depends_on'') = Some deps"
    using no_toString_deps_of no_toString_get_prop by blast
  ultimately show ?thesis
    by (simp add: check_service_def check_restart_def check_depends_on_def)
qed

lemma no_toString_check_services:
  assumes "\<And>k v. (k, v) \<in> set entries \<Longrightarrow> no_toString v"
  shows "\<exists>errs. check_services root serviceNames entries = Some errs"
  using assms
proof (induction entries)
  case Nil
  then show ?case by simp
next
  case (Cons entry entries)
  obtain k v where entry: "entry = (k, v)" by (cases entry)
  from Cons.prems[of k v] entry have "no_toString v" by simp
  then obtain es where "check_service root serviceNames k v = Some es"
    using no_toString_check_service by blast
  moreover have "\<exists>rest. check_services root serviceNames entries = Some rest"
  proof (rule Cons.IH)
    fix k' v' assume "(k', v') \<in> set entries"
    then show "no_toString v'" using Cons.prems[of k' v'] by simp
  qed
  then obtain rest where "check_services root serviceNames entries = Some rest" ..
  ultimately show ?case using entry by simp
qed

lemma no_toString_hasCycle:
  "no_toString services \<Longrightarrow> hasCycle services serviceNames node st \<noteq> None"
  "no_toString services \<Longrightarrow> hasCycle_deps services serviceNames node deps st \<noteq> None"
proof (induct services serviceNames node st and services serviceNames node deps st
    rule: hasCycle_hasCycle_deps.induct)
  case (1 services serviceNames node st)
  from 1(2) obtain deps where
    deps: "deps_of (get_prop (get_prop services node) ''depends_on'') = Some deps"
    using no_toString_deps_of no_toString_get_prop by blast
  show ?case
  proof (cases "node \<notin> inStack st \<and> node \<notin> visited st \<and>
      truthy (get_prop (get_prop services node) ''depends_on'')")
    case True
    then have g: "node \<notin> inStack st" "node \<notin> visited st"
      "truthy (get_prop (get_prop services node) ''depends_on'')" by auto
    from 1(1)[OF g deps 1(2)] g deps show ?thesis
      by (simp add: hasCycle.simps[of services serviceNames node st])
  next
    case False
    then consider "node \<in> inStack st" | "node \<notin> inStack st" "node \<in> visited st"
      | "node \<notin> inStack st" "node \<notin> visited st"
        "\<not> truthy (get_prop (get_prop services node) ''depends_on'')" by blast
    then show ?thesis
      by cases (simp_all add: hasCycle.simps[of services serviceNames node st])
  qed
next
  case (2 services serviceNames node st)
  then show ?case by simp
next
  case (3 services serviceNames node dep deps st)
  show ?case
  proof (cases "dep \<in> set serviceNames")
    case False
    with 3(3)[OF False 3(4)] show ?thesis by simp
  next
    case True
    from 3(1)[OF True 3(4)] obtain b st1 where
      h: "hasCycle services serviceNames dep st = Some (b, st1)" by auto
    show ?thesis
    proof (cases b)
      case True
      with h \<open>dep \<in> set serviceNames\<close> show ?thesis by simp
    next
      case False
      with 3(2)[OF True h refl _ 3(4)] h True show ?thesis by simp
    qed
  qed
qed

lemma no_toString_check_cycles:
  "no_toString services \<Longrightarrow> \<exists>st'. check_cycles services serviceNames names st = Some st'"
proof (induction names arbitrary: st)
  case Nil
  then show ?case by simp
next
  case (Cons name names)
  from no_toString_hasCycle(1)[OF Cons.prems, of serviceNames name st] obtain b st1 where
    "hasCycle services serviceNames name st = Some (b, st1)" by auto
  with Cons.IH[OF Cons.prems, of st1] show ?case by auto
qed

lemma validate_total:
  assumes "no_toString doc"
  shows "\<exists>errs. validate doc = Some errs"
proof -
  let ?services = "get_prop doc ''services''"
  from assms have s: "no_toString ?services" by (rule no_toString_get_prop)
  then have "\<And>k v. (k, v) \<in> set (object_entries ?services) \<Longrightarrow> no_toString v"
    by (rule no_toString_object_entries)
  then obtain se where
    "check_services doc (object_keys ?services) (object_entries ?services) = Some se"
    using no_toString_check_services by blast
  moreover obtain st :: cycle_state where "check_cycles ?services (object_keys ?services) (object_keys ?services)
      \<lparr>visited = {}, inStack = {},
       errors = check_top_level_keys (object_keys doc) @ check_version doc @ se\<rparr> = Some st"
    using no_toString_check_cycles[OF s] by blast
  ultimately show ?thesis by (simp add: validate_def)
qed

text \<open>
  C9 says that \<^verbatim>\<open>validate\<close> never throws on a parsed document. It applies \<^verbatim>\<open>String\<close> to
  the value of \<^verbatim>\<open>restart\<close> and to the elements of a \<^verbatim>\<open>depends_on\<close> sequence without
  looking at their type, and \<^verbatim>\<open>String\<close> throws a \<^verbatim>\<open>TypeError\<close> on a mapping that has a key
  \<^verbatim>\<open>toString\<close>. On the document
  \<^verbatim>\<open>{services: {web: {image: "nginx", restart: {toString: 1}}}}\<close> the call has no result.
\<close>

theorem validate_throws_on_toString_key:
  "validate (JObj [(''services'', JObj [(''web'',
      JObj [(''image'', JStr ''nginx''),
            (''restart'', JObj [(''toString'', JNum (NInt 1))])])])]) = None"
  by code_simp

theorem validate_throws_on_toString_key_witness:
  "\<not> (\<exists>errors. validate (JObj [(''services'', JObj [(''web'',
      JObj [(''image'', JStr ''nginx''),
            (''restart'', JObj [(''toString'', JNum (NInt 1))])])])]) = Some errors)"
  using validate_throws_on_toString_key by simp

subsection \<open>Missing \<^verbatim>\<open>services\<close>\<close>

text \<open>
  C8, as the specification states it: a mapping with exactly one unknown top-level key and
  no \<^verbatim>\<open>services\<close> key gets exactly two diagnostics, and one with no unknown key and no
  \<^verbatim>\<open>services\<close> key exactly one. A mapping may have a \<^verbatim>\<open>version\<close> key as well, which is a
  known key: the warning that \<^verbatim>\<open>version\<close> is obsolete then comes before the
  missing-services error, and \<^verbatim>\<open>{foo: 1, version: "3"}\<close> gets three diagnostics,
  \<^verbatim>\<open>{version: "3"}\<close> two.
\<close>
theorem validate_unknown_key_with_version:
  "validate (JObj [(''foo'', JNum (NInt 1)), (''version'', JStr ''3'')]) \<noteq>
     Some [unknown_top_level_key ''foo'', missing_services] \<and>
   validate (JObj [(''foo'', JNum (NInt 1)), (''version'', JStr ''3'')]) =
     Some [unknown_top_level_key ''foo'', version_obsolete, missing_services] \<and>
   validate (JObj [(''version'', JStr ''3'')]) = Some [version_obsolete, missing_services]"
  by (simp add: validate_def get_prop_def object_keys_def check_version_def
      validTopLevelKeys_def)

text \<open>
  C8, amended: a mapping whose \<^verbatim>\<open>services\<close> is absent or falsy gets the warnings for its
  unknown top-level keys in the order of the keys, then the version warning if it has a
  \<^verbatim>\<open>version\<close> key, then the missing-services error, and nothing else. Without a
  \<^verbatim>\<open>version\<close> key, that is the unknown-key warning and then the error when there is
  exactly one unknown key, and the error alone when there is none.
\<close>
theorem validate_missing_services:
  assumes "\<not> truthy (get_prop (JObj root) ''services'')"
  shows "validate (JObj root) =
       Some (map unknown_top_level_key
               (filter (\<lambda>key. key \<notin> set validTopLevelKeys) (map fst root)) @
             (if get_prop (JObj root) ''version'' \<noteq> JUndefined then [version_obsolete]
              else []) @
             [missing_services]) \<and>
     (filter (\<lambda>key. key \<notin> set validTopLevelKeys) (map fst root) = [key] \<and>
      get_prop (JObj root) ''version'' = JUndefined \<longrightarrow>
        validate (JObj root) = Some [unknown_top_level_key key, missing_services]) \<and>
     (filter (\<lambda>key. key \<notin> set validTopLevelKeys) (map fst root) = [] \<and>
      get_prop (JObj root) ''version'' = JUndefined \<longrightarrow>
        validate (JObj root) = Some [missing_services]) \<and>
     severity (unknown_top_level_key key) = SevWarning \<and>
     severity missing_services = SevError"
proof -
  from assms have "validate (JObj root) =
       Some (map unknown_top_level_key
               (filter (\<lambda>key. key \<notin> set validTopLevelKeys) (map fst root)) @
             (if get_prop (JObj root) ''version'' \<noteq> JUndefined then [version_obsolete]
              else []) @
             [missing_services])"
    by (simp add: validate_def check_top_level_keys_filter check_version_def object_keys_def)
  then show ?thesis
    by (simp add: unknown_top_level_key_def missing_services_def)
qed

theorem validate_missing_services_witness:
  "\<not> truthy (get_prop (JObj [(''foo'', JNum (NInt 1))]) ''services'') \<and>
   filter (\<lambda>key. key \<notin> set validTopLevelKeys) (map fst [(''foo'', JNum (NInt 1))]) = [''foo''] \<and>
   get_prop (JObj [(''foo'', JNum (NInt 1))]) ''version'' = JUndefined \<and>
   validate (JObj [(''foo'', JNum (NInt 1))]) =
     Some [unknown_top_level_key ''foo'', missing_services]"
proof -
  have 1: "\<not> truthy (get_prop (JObj [(''foo'', JNum (NInt 1))]) ''services'')"
    by (simp add: get_prop_def)
  have 2: "filter (\<lambda>key. key \<notin> set validTopLevelKeys) (map fst [(''foo'', JNum (NInt 1))]) =
      [''foo'']"
    by (simp add: validTopLevelKeys_def)
  have 3: "get_prop (JObj [(''foo'', JNum (NInt 1))]) ''version'' = JUndefined"
    by (simp add: get_prop_def)
  from validate_missing_services[OF 1, of "''foo''"] 2 3
  have "validate (JObj [(''foo'', JNum (NInt 1))]) =
     Some [unknown_top_level_key ''foo'', missing_services]" by blast
  with 1 2 3 show ?thesis by blast
qed

subsection \<open>Restart policies\<close>

text \<open>
  C6: for a service that is a mapping with a \<^verbatim>\<open>restart\<close> key, \<^verbatim>\<open>validate\<close> returns a
  restart-policy diagnostic for it if and only if the text of the value before the first
  colon is not one of \<^verbatim>\<open>no\<close>, \<^verbatim>\<open>always\<close>, \<^verbatim>\<open>on-failure\<close>, \<^verbatim>\<open>unless-stopped\<close>; there is then
  exactly one, an error whose message lists these four. The base policy of
  \<^verbatim>\<open>on-failure:3\<close> is valid, that of \<^verbatim>\<open>sometimes\<close> is not.
\<close>
theorem validate_restart_policy:
  assumes "validate (JObj root) = Some errs"
    and "(name, def) \<in> set (object_entries (get_prop (JObj root) ''services''))"
    and "distinct (object_keys (get_prop (JObj root) ''services''))"
    and "js_typeof def = TObject" and "def \<noteq> JNull"
    and "get_prop def ''restart'' \<noteq> JUndefined"
  shows "\<exists>restart. js_String (get_prop def ''restart'') = Some restart \<and>
     filter (restart_error_of name) errs =
       (if basePolicy restart \<in> set validRestartPolicies then []
        else [invalid_restart name (''services.'' @ name) restart]) \<and>
     ((\<exists>e\<in>set errs. restart_error_of name e) \<longleftrightarrow>
        basePolicy restart \<notin> set validRestartPolicies) \<and>
     severity (invalid_restart name (''services.'' @ name) restart) = SevError \<and>
     message (invalid_restart name (''services.'' @ name) restart) =
       ''Invalid restart policy '' @ quoted restart @ '' in '' @ quoted name @
       ''. Valid: no, always, on-failure, unless-stopped.'' \<and>
     basePolicy ''on-failure:3'' \<in> set validRestartPolicies \<and>
     basePolicy ''sometimes'' \<notin> set validRestartPolicies"
proof -
  let ?names = "object_keys (get_prop (JObj root) ''services'')"
  have "\<exists>es. check_service (JObj root) ?names name def = Some es \<and>
      filter (restart_error_of name) errs = filter (restart_error_of name) es"
  proof (rule validate_service_filter[OF assms(1) _ _ _ assms(2,3)])
    fix n d es e
    assume "check_service (JObj root) ?names n d = Some es" "e \<in> set es"
      "restart_error_of name e"
    then show "n = name" by (rule restart_error_of_service)
  qed (simp_all add: restart_error_of_not_others)
  then obtain es where es: "check_service (JObj root) ?names name def = Some es"
    and f: "filter (restart_error_of name) errs = filter (restart_error_of name) es"
    by blast
  from service_filter_restart[OF es assms(4,5)] f
  have c: "check_restart name (''services.'' @ name) def =
      Some (filter (restart_error_of name) errs)" by simp
  with assms(6) obtain restart where r: "js_String (get_prop def ''restart'') = Some restart"
    by (auto simp: check_restart_def split: option.splits)
  with c assms(6) have eq: "filter (restart_error_of name) errs =
       (if basePolicy restart \<in> set validRestartPolicies then []
        else [invalid_restart name (''services.'' @ name) restart])"
    by (auto simp: check_restart_def)
  have "(\<exists>e\<in>set errs. restart_error_of name e) \<longleftrightarrow>
      filter (restart_error_of name) errs \<noteq> []"
    by (simp add: filter_empty_conv)
  with eq have iff: "(\<exists>e\<in>set errs. restart_error_of name e) \<longleftrightarrow>
        basePolicy restart \<notin> set validRestartPolicies"
    by simp
  have "severity (invalid_restart name (''services.'' @ name) restart) = SevError"
    "message (invalid_restart name (''services.'' @ name) restart) =
       ''Invalid restart policy '' @ quoted restart @ '' in '' @ quoted name @
       ''. Valid: no, always, on-failure, unless-stopped.''"
    "basePolicy ''on-failure:3'' \<in> set validRestartPolicies"
    "basePolicy ''sometimes'' \<notin> set validRestartPolicies"
    by (simp_all add: invalid_restart_def validRestartPolicies_def basePolicy_def)
  with r eq iff show ?thesis by blast
qed


theorem validate_restart_policy_witness:
  "validate (JObj [(''services'', JObj [
       (''web'', JObj [(''image'', JStr ''nginx''), (''restart'', JStr ''on-failure:3'')]),
       (''db'', JObj [(''image'', JStr ''postgres''), (''restart'', JStr ''sometimes'')])])])
     = Some [invalid_restart ''db'' ''services.db'' ''sometimes''] \<and>
   (\<exists>restart. js_String (get_prop (JObj [(''image'', JStr ''postgres''),
        (''restart'', JStr ''sometimes'')]) ''restart'') = Some restart \<and>
     filter (restart_error_of ''db'') [invalid_restart ''db'' ''services.db'' ''sometimes''] =
       (if basePolicy restart \<in> set validRestartPolicies then []
        else [invalid_restart ''db'' (''services.'' @ ''db'') restart]))"
proof -
  let ?db = "JObj [(''image'', JStr ''postgres''), (''restart'', JStr ''sometimes'')]"
  let ?root = "[(''services'', JObj [
       (''web'', JObj [(''image'', JStr ''nginx''), (''restart'', JStr ''on-failure:3'')]),
       (''db'', ?db)])]"
  have run: "validate (JObj ?root) = Some [invalid_restart ''db'' ''services.db'' ''sometimes'']"
    by code_simp
  have entry: "(''db'', ?db) \<in> set (object_entries (get_prop (JObj ?root) ''services''))"
    by (simp add: get_prop_def)
  have keys: "distinct (object_keys (get_prop (JObj ?root) ''services''))"
    by (simp add: get_prop_def object_keys_def)
  have shape: "js_typeof ?db = TObject" "?db \<noteq> JNull" "get_prop ?db ''restart'' \<noteq> JUndefined"
    by (simp_all add: get_prop_def)
  from validate_restart_policy[OF run entry keys shape] run show ?thesis by blast
qed


subsection \<open>Ports\<close>

text \<open>
  C7: for a service that is a mapping whose \<^verbatim>\<open>ports\<close> is a sequence, the port
  diagnostics of \<^verbatim>\<open>validate\<close> for that service are, in the order of the sequence, one
  for each entry that is a string or a number and whose text matches neither pattern.
  Each is a warning with the path \<^verbatim>\<open>services.<name>.ports\<close>. An entry that is a mapping
  gets none; \<^verbatim>\<open>8080:80\<close> gets none, \<^verbatim>\<open>abc:80\<close> gets one.
\<close>
theorem validate_port_warnings:
  assumes "validate (JObj root) = Some errs"
    and "(name, def) \<in> set (object_entries (get_prop (JObj root) ''services''))"
    and "distinct (object_keys (get_prop (JObj root) ''services''))"
    and "js_typeof def = TObject" and "def \<noteq> JNull"
    and "get_prop def ''ports'' = JArr ports"
  shows "filter (port_warning_of name) errs =
       map (\<lambda>port. unusual_port name (''services.'' @ name) (port_text port))
         (filter offending_port ports) \<and>
     (\<forall>port. offending_port port \<longleftrightarrow>
        (js_typeof port = TString \<or> js_typeof port = TNumber) \<and>
        (\<exists>pStr. js_String port = Some pStr \<and> pStr = port_text port \<and>
           \<not> rx_test port_re_bare pStr \<and> \<not> rx_test port_re_mapped pStr)) \<and>
     (\<forall>pStr. severity (unusual_port name (''services.'' @ name) pStr) = SevWarning \<and>
        path (unusual_port name (''services.'' @ name) pStr) =
          Some (''services.'' @ name @ ''.ports'')) \<and>
     (\<forall>kvs. \<not> offending_port (JObj kvs)) \<and>
     \<not> offending_port (JStr ''8080:80'') \<and> offending_port (JStr ''abc:80'')"
proof -
  let ?names = "object_keys (get_prop (JObj root) ''services'')"
  have "\<exists>es. check_service (JObj root) ?names name def = Some es \<and>
      filter (port_warning_of name) errs = filter (port_warning_of name) es"
  proof (rule validate_service_filter[OF assms(1) _ _ _ assms(2,3)])
    fix n d es e
    assume "check_service (JObj root) ?names n d = Some es" "e \<in> set es"
      "port_warning_of name e"
    then show "n = name" by (rule port_warning_of_service)
  qed (simp_all add: port_warning_of_not_others)
  then obtain es where es: "check_service (JObj root) ?names name def = Some es"
    and f: "filter (port_warning_of name) errs = filter (port_warning_of name) es"
    by blast
  from service_filter_ports[OF es assms(4,5)] f assms(6)
  have 1: "filter (port_warning_of name) errs =
       map (\<lambda>port. unusual_port name (''services.'' @ name) (port_text port))
         (filter offending_port ports)"
    by (simp add: check_port_list_offending)
  have 2: "offending_port port \<longleftrightarrow>
        (js_typeof port = TString \<or> js_typeof port = TNumber) \<and>
        (\<exists>pStr. js_String port = Some pStr \<and> pStr = port_text port \<and>
           \<not> rx_test port_re_bare pStr \<and> \<not> rx_test port_re_mapped pStr)" for port
    by (cases port) (simp_all add: port_ok_def)
  have 3: "severity (unusual_port name (''services.'' @ name) pStr) = SevWarning \<and>
        path (unusual_port name (''services.'' @ name) pStr) =
          Some (''services.'' @ name @ ''.ports'')" for pStr
    by (simp add: unusual_port_def)
  have 4: "\<not> offending_port (JStr ''8080:80'')" "offending_port (JStr ''abc:80'')"
    using port_ok_examples by simp_all
  from 1 2 3 4 show ?thesis by simp
qed


theorem validate_port_warnings_witness:
  "validate (JObj [(''services'', JObj [
       (''web'', JObj [(''image'', JStr ''nginx''),
          (''ports'', JArr [JStr ''8080:80'', JStr ''abc:80'',
                            JObj [(''target'', JNum (NInt 80))], JNum (NInt 443)])])])])
     = Some [unusual_port ''web'' ''services.web'' ''abc:80''] \<and>
   filter (port_warning_of ''web'') [unusual_port ''web'' ''services.web'' ''abc:80''] =
     map (\<lambda>port. unusual_port ''web'' ''services.web'' (port_text port))
       (filter offending_port [JStr ''8080:80'', JStr ''abc:80'',
                            JObj [(''target'', JNum (NInt 80))], JNum (NInt 443)])"
proof -
  let ?ports = "[JStr ''8080:80'', JStr ''abc:80'',
                            JObj [(''target'', JNum (NInt 80))], JNum (NInt 443)]"
  let ?web = "JObj [(''image'', JStr ''nginx''), (''ports'', JArr ?ports)]"
  let ?root = "[(''services'', JObj [(''web'', ?web)])]"
  let ?errs = "[unusual_port ''web'' ''services.web'' ''abc:80'']"
  have run: "validate (JObj ?root) = Some ?errs" by code_simp
  have entry: "(''web'', ?web) \<in> set (object_entries (get_prop (JObj ?root) ''services''))"
    by (simp add: get_prop_def)
  have keys: "distinct (object_keys (get_prop (JObj ?root) ''services''))"
    by (simp add: get_prop_def object_keys_def)
  have shape: "js_typeof ?web = TObject" "?web \<noteq> JNull" "get_prop ?web ''ports'' = JArr ?ports"
    by (simp_all add: get_prop_def)
  have simps: "''services.'' @ ''web'' = ''services.web''" by simp
  from validate_port_warnings[OF run entry keys shape]
  have "filter (port_warning_of ''web'') ?errs =
     map (\<lambda>port. unusual_port ''web'' ''services.web'' (port_text port))
       (filter offending_port ?ports)"
    unfolding simps by (rule conjunct1)
  with run show ?thesis by (intro conjI)
qed

subsection \<open>Dependencies on the service itself\<close>

text \<open>
  C5: for a service that is a mapping with a truthy \<^verbatim>\<open>depends_on\<close>, the diagnostics of
  \<^verbatim>\<open>validate\<close> about the dependencies of that service are, in the order of the names
  listed, exactly one self-dependency error for each entry that is the service's own
  name, one undefined-reference error for each entry that names no service, and nothing
  for the others. The service's own name is a name of a service, and no
  undefined-reference error for it is among the diagnostics. (The search for circular
  dependencies, a later step, reports the edge from the service to itself on its own.)
\<close>
theorem validate_self_dependency:
  assumes "validate (JObj root) = Some errs"
    and "(name, def) \<in> set (object_entries (get_prop (JObj root) ''services''))"
    and "distinct (object_keys (get_prop (JObj root) ''services''))"
    and "js_typeof def = TObject" and "def \<noteq> JNull"
    and "truthy (get_prop def ''depends_on'')"
  shows "\<exists>deps. deps_of (get_prop def ''depends_on'') = Some deps \<and>
     filter (dependency_error_of name) errs =
       concat (map (\<lambda>dep.
         if dep = name then [self_dependency name (''services.'' @ name)]
         else if dep \<in> set (object_keys (get_prop (JObj root) ''services'')) then []
         else [undefined_dependency name (''services.'' @ name) dep]) deps) \<and>
     name \<in> set (object_keys (get_prop (JObj root) ''services'')) \<and>
     undefined_dependency name (''services.'' @ name) name \<notin> set errs \<and>
     severity (self_dependency name (''services.'' @ name)) = SevError \<and>
     message (self_dependency name (''services.'' @ name)) =
       ''Service '' @ quoted name @ '' depends on itself.''"
proof -
  let ?names = "object_keys (get_prop (JObj root) ''services'')"
  let ?p = "''services.'' @ name"
  let ?f = "\<lambda>dep. if dep = name then [self_dependency name ?p]
      else if dep \<in> set ?names then [] else [undefined_dependency name ?p dep]"
  have "\<exists>es. check_service (JObj root) ?names name def = Some es \<and>
      filter (dependency_error_of name) errs = filter (dependency_error_of name) es"
  proof (rule validate_service_filter[OF assms(1) _ _ _ assms(2,3)])
    fix n d es e
    assume "check_service (JObj root) ?names n d = Some es" "e \<in> set es"
      "dependency_error_of name e"
    then show "n = name" by (rule dependency_error_of_service)
  qed (simp_all add: dependency_error_of_not_others)
  then obtain es where es: "check_service (JObj root) ?names name def = Some es"
    and f: "filter (dependency_error_of name) errs = filter (dependency_error_of name) es"
    by blast
  from service_filter_depends_on[OF es assms(4,5)] f
  have c: "check_depends_on ?names name ?p def = Some (filter (dependency_error_of name) errs)"
    by simp
  with assms(6) obtain deps where deps: "deps_of (get_prop def ''depends_on'') = Some deps"
    by (auto simp: check_depends_on_def split: option.splits)
  from assms(2) have name: "name \<in> set ?names" by (force simp: object_keys_def)
  from c assms(6) deps
  have cd: "filter (dependency_error_of name) errs = check_deps ?names name ?p deps"
    by (simp add: check_depends_on_def)
  have eq: "filter (dependency_error_of name) errs = concat (map ?f deps)"
    unfolding cd by (rule check_deps_defined[OF name])
  have "undefined_dependency name ?p name \<notin> set errs"
  proof
    assume "undefined_dependency name ?p name \<in> set errs"
    moreover have "dependency_error_of name (undefined_dependency name ?p name)"
      by (auto simp: dependency_error_of_def)
    ultimately have "undefined_dependency name ?p name \<in> set (filter (dependency_error_of name) errs)"
      by simp
    then have "undefined_dependency name ?p name \<in> set (concat (map ?f deps))"
      unfolding eq .
    then obtain dep where "undefined_dependency name ?p name \<in> set (?f dep)"
      by (simp only: set_concat set_map) blast
    then consider "dep = name" "undefined_dependency name ?p name = self_dependency name ?p"
      | "dep \<noteq> name" "undefined_dependency name ?p name = undefined_dependency name ?p dep"
      by (simp split: if_splits)
    then show False
    proof cases
      case 1
      with undefined_not_self[of name ?p name] show False by blast
    next
      case 2
      with undefined_dependency_inject[of name ?p name dep] show False by blast
    qed
  qed
  moreover have "severity (self_dependency name ?p) = SevError"
    "message (self_dependency name ?p) = ''Service '' @ quoted name @ '' depends on itself.''"
    by (simp_all add: self_dependency_def)
  ultimately show ?thesis using deps eq name by blast
qed

theorem validate_self_dependency_witness:
  "validate (JObj [(''services'', JObj [
       (''A'', JObj [(''image'', JStr ''nginx''),
                     (''depends_on'', JArr [JStr ''A'', JStr ''ghost''])])])])
     = Some [self_dependency ''A'' ''services.A'',
             undefined_dependency ''A'' ''services.A'' ''ghost'',
             circular_dependency ''A'' ''A''] \<and>
   (\<exists>deps. deps_of (JArr [JStr ''A'', JStr ''ghost'']) = Some deps \<and>
      filter (dependency_error_of ''A'')
        [self_dependency ''A'' ''services.A'',
         undefined_dependency ''A'' ''services.A'' ''ghost'',
         circular_dependency ''A'' ''A''] =
      concat (map (\<lambda>dep.
         if dep = ''A'' then [self_dependency ''A'' ''services.A'']
         else if dep \<in> {''A''} then []
         else [undefined_dependency ''A'' ''services.A'' dep]) deps))"
proof -
  let ?A = "JObj [(''image'', JStr ''nginx''),
                  (''depends_on'', JArr [JStr ''A'', JStr ''ghost''])]"
  let ?root = "[(''services'', JObj [(''A'', ?A)])]"
  let ?errs = "[self_dependency ''A'' ''services.A'',
             undefined_dependency ''A'' ''services.A'' ''ghost'',
             circular_dependency ''A'' ''A'']"
  have run: "validate (JObj ?root) = Some ?errs" by code_simp
  have entry: "(''A'', ?A) \<in> set (object_entries (get_prop (JObj ?root) ''services''))"
    by (simp add: get_prop_def)
  have keys: "distinct (object_keys (get_prop (JObj ?root) ''services''))"
    by (simp add: get_prop_def object_keys_def)
  have shape: "js_typeof ?A = TObject" "?A \<noteq> JNull" "truthy (get_prop ?A ''depends_on'')"
    by (simp_all add: get_prop_def)
  have simps: "get_prop ?A ''depends_on'' = JArr [JStr ''A'', JStr ''ghost'']"
    "set (object_keys (get_prop (JObj ?root) ''services'')) = {''A''}"
    "''services.'' @ ''A'' = ''services.A''"
    by (simp_all add: get_prop_def object_keys_def)
  from validate_self_dependency[OF run entry keys shape]
  have "\<exists>deps. deps_of (JArr [JStr ''A'', JStr ''ghost'']) = Some deps \<and>
      filter (dependency_error_of ''A'') ?errs =
      concat (map (\<lambda>dep.
         if dep = ''A'' then [self_dependency ''A'' ''services.A'']
         else if dep \<in> {''A''} then []
         else [undefined_dependency ''A'' ''services.A'' dep]) deps)"
    unfolding simps by blast
  with run show ?thesis by (intro conjI)
qed

subsection \<open>Circular dependencies\<close>

text \<open>
  One step of the loop of \<^verbatim>\<open>hasCycle(node)\<close>: a dependency that names a service and is
  on the stack makes the call for it return true at once, and the loop pushes the
  diagnostic of this edge, takes \<open>node\<close> off the stack and returns true.
\<close>

lemma hasCycle_deps_on_stack:
  assumes "dep \<in> set serviceNames" and "dep \<in> inStack st"
  shows "hasCycle_deps services serviceNames node (dep # deps) st =
       Some (True, st\<lparr>errors := errors st @ [circular_dependency node dep],
                       inStack := inStack st - {node}\<rparr>)"
  using assms by (simp add: hasCycle_on_stack)







text \<open>
  C2: for a document whose services are \<open>a\<close> and \<open>b\<close>, each listing the other in its
  \<^verbatim>\<open>depends_on\<close>, the diagnostics that \<^verbatim>\<open>validate\<close> returns hold at least one
  circular-dependency diagnostic, of severity error; for a document whose services are
  \<open>a\<close>, \<open>b\<close> and \<open>c\<close>, where \<open>a\<close> lists \<open>b\<close>, \<open>b\<close> lists \<open>c\<close> and \<open>c\<close> lists nothing,
  they hold none.
\<close>
theorem validate_cycle_test:
  "(a \<noteq> b \<and> validate (JObj root) = Some errs \<and>
    get_prop (JObj root) ''services'' = JObj [(a, defA), (b, defB)] \<and>
    truthy (get_prop defA ''depends_on'') \<and>
    deps_of (get_prop defA ''depends_on'') = Some depsA \<and> b \<in> set depsA \<and>
    truthy (get_prop defB ''depends_on'') \<and>
    deps_of (get_prop defB ''depends_on'') = Some depsB \<and> a \<in> set depsB \<longrightarrow>
    (\<exists>e\<in>set errs. severity e = SevError \<and> (\<exists>n d. e = circular_dependency n d))) \<and>
   (distinct [a, b, c] \<and> validate (JObj root') = Some errs' \<and>
    get_prop (JObj root') ''services'' = JObj [(a, defA'), (b, defB'), (c, defC')] \<and>
    deps_of (get_prop defA' ''depends_on'') = Some [b] \<and>
    deps_of (get_prop defB' ''depends_on'') = Some [c] \<and>
    deps_of (get_prop defC' ''depends_on'') = Some [] \<longrightarrow>
    (\<forall>n d. circular_dependency n d \<notin> set errs'))"
proof (intro conjI impI)
  assume h: "a \<noteq> b \<and> validate (JObj root) = Some errs \<and>
    get_prop (JObj root) ''services'' = JObj [(a, defA), (b, defB)] \<and>
    truthy (get_prop defA ''depends_on'') \<and>
    deps_of (get_prop defA ''depends_on'') = Some depsA \<and> b \<in> set depsA \<and>
    truthy (get_prop defB ''depends_on'') \<and>
    deps_of (get_prop defB ''depends_on'') = Some depsB \<and> a \<in> set depsB"
  let ?services = "JObj [(a, defA), (b, defB)]"
  let ?G = "dependency_graph ?services (object_keys ?services)"
  from h have ne: "a \<noteq> b" by simp
  have A: "get_prop ?services a = defA" by (simp add: get_prop_def)
  from ne have B: "get_prop ?services b = defB" by (simp add: get_prop_def)
  from h A have "(a, b) \<in> ?G"
    by (simp add: dependency_graph_def dependency_edge_def object_keys_def)
  moreover from h B have "(b, a) \<in> ?G"
    by (simp add: dependency_graph_def dependency_edge_def object_keys_def)
  ultimately have "(a, a) \<in> ?G\<^sup>+" by (meson trancl.intros)
  then have "\<exists>x. (x, x) \<in> ?G\<^sup>+" ..
  moreover from h have "(\<exists>n d. circular_dependency n d \<in> set errs) \<longleftrightarrow>
      (\<exists>x. (x, x) \<in> ?G\<^sup>+)"
    using validate_reports_cycle_iff[of "JObj root" errs] by simp
  ultimately obtain n d where "circular_dependency n d \<in> set errs" by blast
  moreover have "severity (circular_dependency n d) = SevError"
    by (simp add: circular_dependency_def)
  ultimately show "\<exists>e\<in>set errs. severity e = SevError \<and> (\<exists>n d. e = circular_dependency n d)"
    by blast
next
  assume h: "distinct [a, b, c] \<and> validate (JObj root') = Some errs' \<and>
    get_prop (JObj root') ''services'' = JObj [(a, defA'), (b, defB'), (c, defC')] \<and>
    deps_of (get_prop defA' ''depends_on'') = Some [b] \<and>
    deps_of (get_prop defB' ''depends_on'') = Some [c] \<and>
    deps_of (get_prop defC' ''depends_on'') = Some []"
  let ?services = "JObj [(a, defA'), (b, defB'), (c, defC')]"
  let ?G = "dependency_graph ?services (object_keys ?services)"
  define rank :: "string \<Rightarrow> nat" where "rank x = (if x = a then 2 else if x = b then 1 else 0)" for x
  have edge: "rank y < rank x" if "(x, y) \<in> ?G" for x y
  proof -
    from that have y: "y \<in> {a, b, c}"
      and t: "truthy (get_prop (get_prop ?services x) ''depends_on'')"
      and d: "\<exists>deps. deps_of (get_prop (get_prop ?services x) ''depends_on'') = Some deps \<and>
          y \<in> set deps"
      by (auto simp: dependency_graph_def dependency_edge_def object_keys_def
          split: option.splits)
    from h have ne: "a \<noteq> b" "a \<noteq> c" "b \<noteq> c" by auto
    from h have deps: "deps_of (get_prop defA' ''depends_on'') = Some [b]"
      "deps_of (get_prop defB' ''depends_on'') = Some [c]"
      "deps_of (get_prop defC' ''depends_on'') = Some []" by auto
    consider "x = a" | "x \<noteq> a" "x = b" | "x \<noteq> a" "x \<noteq> b" "x = c" | "x \<notin> {a, b, c}" by blast
    then show ?thesis
    proof cases
      case 1
      then have "get_prop ?services x = defA'" by (simp add: get_prop_def)
      with d deps have "y = b" by simp
      with 1 ne show ?thesis by (simp add: rank_def)
    next
      case 2
      then have "get_prop ?services x = defB'" by (simp add: get_prop_def)
      with d deps have "y = c" by simp
      with 2 ne show ?thesis by (simp add: rank_def)
    next
      case 3
      then have "get_prop ?services x = defC'" by (simp add: get_prop_def)
      with d deps show ?thesis by simp
    next
      case 4
      then have "get_prop ?services x = JUndefined" by (simp add: get_prop_def)
      with t show ?thesis by (simp add: get_prop_def)
    qed
  qed
  have "\<not> (\<exists>x. (x, x) \<in> ?G\<^sup>+)" using trancl_rank[of ?G rank] edge by blast
  moreover from h have "(\<exists>n d. circular_dependency n d \<in> set errs') \<longleftrightarrow>
      (\<exists>x. (x, x) \<in> ?G\<^sup>+)"
    using validate_reports_cycle_iff[of "JObj root'" errs'] by simp
  ultimately show "\<forall>n d. circular_dependency n d \<notin> set errs'" by blast
qed

theorem validate_cycle_test_witness:
  "validate (JObj [(''services'', JObj [
       (''A'', JObj [(''image'', JStr ''nginx''), (''depends_on'', JArr [JStr ''B''])]),
       (''B'', JObj [(''image'', JStr ''nginx''), (''depends_on'', JArr [JStr ''A''])])])])
     = Some [circular_dependency ''B'' ''A'', circular_dependency ''A'' ''B''] \<and>
   (\<exists>e\<in>set [circular_dependency ''B'' ''A'', circular_dependency ''A'' ''B''].
      severity e = SevError \<and> (\<exists>n d. e = circular_dependency n d)) \<and>
   validate (JObj [(''services'', JObj [
       (''A'', JObj [(''image'', JStr ''nginx''), (''depends_on'', JArr [JStr ''B''])]),
       (''B'', JObj [(''image'', JStr ''nginx''), (''depends_on'', JArr [JStr ''C''])]),
       (''C'', JObj [(''image'', JStr ''nginx'')])])])
     = Some [] \<and>
   (\<forall>n d. circular_dependency n d \<notin> set ([] :: ValidationError list))"
proof -
  let ?A = "JObj [(''image'', JStr ''nginx''), (''depends_on'', JArr [JStr ''B''])]"
  let ?B = "JObj [(''image'', JStr ''nginx''), (''depends_on'', JArr [JStr ''A''])]"
  let ?B' = "JObj [(''image'', JStr ''nginx''), (''depends_on'', JArr [JStr ''C''])]"
  let ?C' = "JObj [(''image'', JStr ''nginx'')]"
  let ?root = "[(''services'', JObj [(''A'', ?A), (''B'', ?B)])]"
  let ?root' = "[(''services'', JObj [(''A'', ?A), (''B'', ?B'), (''C'', ?C')])]"
  let ?errs = "[circular_dependency ''B'' ''A'', circular_dependency ''A'' ''B'']"
  have run: "validate (JObj ?root) = Some ?errs" by code_simp
  have run': "validate (JObj ?root') = Some []" by code_simp
  have h: "''A'' \<noteq> ''B'' \<and> validate (JObj ?root) = Some ?errs \<and>
    get_prop (JObj ?root) ''services'' = JObj [(''A'', ?A), (''B'', ?B)] \<and>
    truthy (get_prop ?A ''depends_on'') \<and>
    deps_of (get_prop ?A ''depends_on'') = Some [''B''] \<and> ''B'' \<in> set [''B''] \<and>
    truthy (get_prop ?B ''depends_on'') \<and>
    deps_of (get_prop ?B ''depends_on'') = Some [''A''] \<and> ''A'' \<in> set [''A'']"
    using run by (simp add: get_prop_def)
  have h': "distinct [''A'', ''B'', ''C''] \<and> validate (JObj ?root') = Some [] \<and>
    get_prop (JObj ?root') ''services'' = JObj [(''A'', ?A), (''B'', ?B'), (''C'', ?C')] \<and>
    deps_of (get_prop ?A ''depends_on'') = Some [''B''] \<and>
    deps_of (get_prop ?B' ''depends_on'') = Some [''C''] \<and>
    deps_of (get_prop ?C' ''depends_on'') = Some []"
    using run' by (simp add: get_prop_def)
  note t = validate_cycle_test[where a = "''A''" and b = "''B''" and c = "''C''"
      and root = ?root and errs = ?errs and defA = ?A and defB = ?B
      and depsA = "[''B'']" and depsB = "[''A'']"
      and root' = ?root' and errs' = "[]" and defA' = ?A and defB' = ?B' and defC' = ?C']
  from t h have 1: "\<exists>e\<in>set ?errs. severity e = SevError \<and> (\<exists>n d. e = circular_dependency n d)"
    by (rule conjunct1[THEN mp])
  from t h' have 2: "\<forall>n d. circular_dependency n d \<notin> set ([] :: ValidationError list)"
    by (rule conjunct2[THEN mp])
  from run 1 run' 2 show ?thesis by (intro conjI)
qed

text \<open>
  C10: a call of \<^verbatim>\<open>hasCycle\<close> for a visited node changes nothing, so no node is expanded
  twice. Of the diagnostics that \<^verbatim>\<open>validate\<close> returns, the circular-dependency
  diagnostics are the last ones, and the nodes that report them (the first service each
  names) are pairwise distinct names of services: at most one for each service. Once
  the loop over the service names is through, a further call of \<^verbatim>\<open>hasCycle\<close> for any
  service returns false and reports nothing.
\<close>
theorem validate_one_cycle_error_per_service:
  assumes "validate doc = Some errs"
  shows "\<exists>others edges. errs = others @ cycle_errors edges \<and>
     (\<forall>e\<in>set others. \<forall>n d. e \<noteq> circular_dependency n d) \<and>
     distinct (map fst edges) \<and>
     set (map fst edges) \<subseteq> set (object_keys (get_prop doc ''services'')) \<and>
     (\<forall>services serviceNames errs0 st.
        check_cycles services serviceNames serviceNames
          \<lparr>visited = {}, inStack = {}, errors = errs0\<rparr> = Some st \<longrightarrow>
        (\<forall>name\<in>set serviceNames. hasCycle services serviceNames name st = Some (False, st))) \<and>
     (\<forall>services serviceNames node st. node \<in> visited st \<longrightarrow>
        hasCycle services serviceNames node st = Some (node \<in> inStack st, st))"
proof -
  from validate_errors_split[OF assms]
  obtain others edges where 1: "errs = others @ cycle_errors edges"
    "\<forall>e\<in>set others. \<forall>n d. e \<noteq> circular_dependency n d"
    "distinct (map fst edges)"
    "set (map fst edges) \<subseteq> set (object_keys (get_prop doc ''services''))"
    by blast
  have 2: "hasCycle services serviceNames name st = Some (False, st)"
    if "check_cycles services serviceNames serviceNames
          \<lparr>visited = {}, inStack = {}, errors = errs0\<rparr> = Some st" "name \<in> set serviceNames"
    for services serviceNames errs0 st name
  proof -
    from check_cycles_errors[OF that(1)] have "inStack st = {}" by simp
    moreover from check_cycles_visits[OF that(1)] that(2) have "name \<in> visited st" by auto
    ultimately show ?thesis by (simp add: hasCycle_seen)
  qed
  have 3: "hasCycle services serviceNames node st = Some (node \<in> inStack st, st)"
    if "node \<in> visited st" for services serviceNames node st
    using that by (simp add: hasCycle.simps)
  show ?thesis
  proof (intro exI conjI)
    show "errs = others @ cycle_errors edges" by (rule 1)
    show "\<forall>e\<in>set others. \<forall>n d. e \<noteq> circular_dependency n d" by (rule 1)
    show "distinct (map fst edges)" by (rule 1)
    show "set (map fst edges) \<subseteq> set (object_keys (get_prop doc ''services''))" by (rule 1)
    show "\<forall>services serviceNames errs0 st.
        check_cycles services serviceNames serviceNames
          \<lparr>visited = {}, inStack = {}, errors = errs0\<rparr> = Some st \<longrightarrow>
        (\<forall>name\<in>set serviceNames. hasCycle services serviceNames name st = Some (False, st))"
      using 2 by blast
    show "\<forall>services serviceNames node st. node \<in> visited st \<longrightarrow>
        hasCycle services serviceNames node st = Some (node \<in> inStack st, st)"
      using 3 by blast
  qed
qed

theorem validate_one_cycle_error_per_service_witness:
  "validate (JObj [(''services'', JObj [
       (''A'', JObj [(''image'', JStr ''nginx''), (''depends_on'', JArr [JStr ''B''])]),
       (''B'', JObj [(''image'', JStr ''nginx''), (''depends_on'', JArr [JStr ''A''])])])])
     = Some [circular_dependency ''B'' ''A'', circular_dependency ''A'' ''B''] \<and>
   (\<exists>others edges.
      [circular_dependency ''B'' ''A'', circular_dependency ''A'' ''B''] =
        others @ cycle_errors edges \<and>
      distinct (map fst edges) \<and> set (map fst edges) \<subseteq> {''A'', ''B''})"
proof -
  let ?root = "[(''services'', JObj [
       (''A'', JObj [(''image'', JStr ''nginx''), (''depends_on'', JArr [JStr ''B''])]),
       (''B'', JObj [(''image'', JStr ''nginx''), (''depends_on'', JArr [JStr ''A''])])])]"
  let ?errs = "[circular_dependency ''B'' ''A'', circular_dependency ''A'' ''B'']"
  have run: "validate (JObj ?root) = Some ?errs" by code_simp
  have keys: "set (object_keys (get_prop (JObj ?root) ''services'')) = {''A'', ''B''}"
    by (simp add: get_prop_def object_keys_def)
  from validate_one_cycle_error_per_service[OF run]
  obtain others edges where "?errs = others @ cycle_errors edges" "distinct (map fst edges)"
    "set (map fst edges) \<subseteq> set (object_keys (get_prop (JObj ?root) ''services''))"
    by blast
  with keys have "\<exists>others edges. ?errs = others @ cycle_errors edges \<and>
      distinct (map fst edges) \<and> set (map fst edges) \<subseteq> {''A'', ''B''}"
    by (simp only:) blast
  with run show ?thesis by (intro conjI)
qed

end
